theory Spec2Isabelle
  imports Main "HOL-Library.Sublist"
begin

section \<open>Path functions of the Python library used by the script\<close>

text \<open>
  The script runs on POSIX paths (it appends \<open>/\<close> to the download directory), so
  \<open>os.path\<close> is \<open>posixpath\<close>. Strings are byte strings.
\<close>

definition sep :: char where
  "sep = CHR ''/''"

definition startswith :: "string \<Rightarrow> string \<Rightarrow> bool" where
  "startswith s p = prefix p s"

definition endswith :: "string \<Rightarrow> string \<Rightarrow> bool" where
  "endswith s p = suffix p s"

text \<open>
  \<^verbatim>\<open>os.path.join(a, b)\<close>: an absolute \<open>b\<close> discards \<open>a\<close>; otherwise \<open>b\<close> is
  appended, with a separator unless \<open>a\<close> is empty or already ends with one.
  Nothing is normalised.
\<close>

definition path_join :: "string \<Rightarrow> string \<Rightarrow> string" where
  "path_join a b =
     (if startswith b [sep] then b
      else if a = [] \<or> endswith a [sep] then a @ b
      else a @ [sep] @ b)"

text \<open>
  \<^verbatim>\<open>os.path.dirname(p)\<close>:
  \<^verbatim>\<open>i = p.rfind('/') + 1; head = p[:i]\<close>, and
  \<^verbatim>\<open>if head and head != '/' * len(head): head = head.rstrip('/')\<close>.
\<close>

definition rstrip_sep :: "string \<Rightarrow> string" where
  "rstrip_sep s = rev (dropWhile (\<lambda>c. c = sep) (rev s))"

definition dirname :: "string \<Rightarrow> string" where
  "dirname p =
     (let head = rev (dropWhile (\<lambda>c. c \<noteq> sep) (rev p))
      in if head \<noteq> [] \<and> head \<noteq> replicate (length head) sep
         then rstrip_sep head else head)"

section \<open>Building the set of active files\<close>

text \<open>
  The inner loop of \<open>scan_torrents\<close> that records the parent directories of a file:
  \<^verbatim>\<open>while parent and parent != save_path:
      active_dirs.add(parent); parent = os.path.dirname(parent)\<close>
  Nothing bounds the loop: \<open>dirname\<close> has fixed points other than the empty string
  (\<open>dirname('/') = '/'\<close>), so it is a partial function, \<open>None\<close> meaning that the
  loop does not return.
\<close>

partial_function (option) track_parents :: "string \<Rightarrow> string \<Rightarrow> string set \<Rightarrow> string set option" where
  "track_parents save_path parent active_dirs =
     (if parent \<noteq> [] \<and> parent \<noteq> save_path
      then track_parents save_path (dirname parent) (insert parent active_dirs)
      else Some active_dirs)"

section \<open>What the script reads from its environment\<close>

text \<open>
  A torrent as the daemon reports it. Reading \<^verbatim>\<open>torrent.files\<close> is a request to the
  daemon, which either raises (\<open>Inl\<close> the exception's text) or yields the whole list of
  the relative file names (\<^verbatim>\<open>file.name\<close>).
\<close>

record torrent =
  name :: string
  save_path :: string
  files :: "string + string list"

text \<open>
  What is found at a path: a non-directory, a directory with its entries in the order
  \<^verbatim>\<open>os.scandir\<close> lists them, or a directory entry that \<^verbatim>\<open>os.walk\<close> does not
  descend into (a symbolic link to a directory, or a directory whose listing fails:
  \<^verbatim>\<open>os.walk\<close> is called without \<^verbatim>\<open>onerror\<close>, which swallows the error).
\<close>

datatype entry = File | Dir "(string \<times> entry) list" | Unlistable

fun is_dir :: "entry \<Rightarrow> bool" where
  "is_dir File = False"
| "is_dir (Dir es) = True"
| "is_dir Unlistable = True"

text \<open>
  \<^verbatim>\<open>os.walk(dir)\<close>, top-down: yields \<open>(dir, dirs, nondirs)\<close>, then walks each
  directory of \<open>dirs\<close> at \<^verbatim>\<open>os.path.join(dir, name)\<close>.
\<close>

fun os_walk :: "string \<Rightarrow> entry \<Rightarrow> (string \<times> string list \<times> string list) list" where
  "os_walk dir (Dir es) =
     (dir, map fst (filter (\<lambda>ne. is_dir (snd ne)) es),
           map fst (filter (\<lambda>ne. \<not> is_dir (snd ne)) es))
     # concat (map (\<lambda>ne. os_walk (path_join dir (fst ne)) (snd ne))
                   (filter (\<lambda>ne. is_dir (snd ne)) es))"
| "os_walk dir File = []"
| "os_walk dir Unlistable = []"

text \<open>
  The environment of \<open>scan_torrents\<close>: the answer of
  \<^verbatim>\<open>qbt_client.torrents_info()\<close> (\<open>Inl\<close> when it raises), what is at the download
  directory (\<open>None\<close> when \<^verbatim>\<open>os.path.exists\<close> is false), and
  \<^verbatim>\<open>os.path.getsize\<close> (\<open>Inl\<close> the text of the \<open>OSError\<close>).
\<close>

record scan_env =
  torrents_info :: "string + torrent list"
  target :: "entry option"
  getsize :: "string \<Rightarrow> string + nat"

section \<open>Console output\<close>

text \<open>
  What \<open>scan_torrents\<close> and \<open>main\<close> print, one message for each \<^verbatim>\<open>print\<close> that says
  something (the rules of \<open>=\<close> are left out); the numbers and strings are its arguments.
\<close>

datatype message =
    Scanning_active_torrents
  | Processing_torrent nat nat
  | Warning_torrent_files string string
  | Found_torrents nat nat
  | Error_torrent_info string
  | Scanning_directory string
  | Error_directory_missing string
  | Scanning_files nat
  | Warning_cannot_access string string
  | Scanned_total nat
  | Failed_to_connect
  | Script_error
  | Report_header nat nat
  | Top_entry nat nat string
  | More_files nat
  | Report_saved
  | Warning_report_not_saved string
  | Deleting_files
  | Deleted_progress nat nat
  | Error_deleting string string
  | Deleted_summary nat nat
  | Failed_summary nat
  | Deletion_cancelled
  | No_orphans
  | Done

record console =
  printed :: "message list"

definition print :: "message \<Rightarrow> 'a console_scheme \<Rightarrow> 'a console_scheme" where
  "print m st = st\<lparr>printed := printed st @ [m]\<rparr>"

section \<open>scan\_torrents\<close>

record live_state = console +
  active_files :: "string set"
  active_dirs :: "string set"

text \<open>The loop over the files of one torrent (lines 161 to 169).\<close>

fun add_files :: "string \<Rightarrow> string list \<Rightarrow> live_state \<Rightarrow> live_state option" where
  "add_files sp [] st = Some st"
| "add_files sp (f # fs) st =
     (let file_path = path_join sp f;
          st1 = st\<lparr>active_files := insert file_path (active_files st)\<rparr>
      in case track_parents sp (dirname file_path) (active_dirs st1) of
           None \<Rightarrow> None
         | Some ad \<Rightarrow> add_files sp fs (st1\<lparr>active_dirs := ad\<rparr>))"

text \<open>
  The loop over the torrents (lines 152 to 171); \<open>i\<close> is the index of \<open>enumerate\<close>.
  A torrent whose file list raises is reported and the loop goes on.
\<close>

fun process_torrents :: "nat \<Rightarrow> nat \<Rightarrow> torrent list \<Rightarrow> live_state \<Rightarrow> live_state option" where
  "process_torrents i torrent_count [] st = Some st"
| "process_torrents i torrent_count (t # ts) st =
     (let st1 = print (Processing_torrent (i + 1) torrent_count) st
      in case files t of
           Inl e \<Rightarrow>
             process_torrents (i + 1) torrent_count ts (print (Warning_torrent_files (name t) e) st1)
         | Inr torrent_files \<Rightarrow>
             (case add_files (save_path t) torrent_files st1 of
                None \<Rightarrow> None
              | Some st2 \<Rightarrow> process_torrents (i + 1) torrent_count ts st2))"

record walk_state = console +
  file_count :: nat
  orphaned_files :: "(string \<times> nat) list"
  total_orphaned_size :: nat

text \<open>The body of the loop over the files of one directory (lines 193 to 206).\<close>

definition scan_file :: "string set \<Rightarrow> (string \<Rightarrow> string + nat) \<Rightarrow> string \<Rightarrow> walk_state \<Rightarrow> string \<Rightarrow> walk_state" where
  "scan_file active gsize root st file =
     (let st1 = st\<lparr>file_count := file_count st + 1\<rparr>;
          st2 = (if file_count st1 mod 100 = 0 then print (Scanning_files (file_count st1)) st1 else st1);
          full_path = path_join root file
      in if full_path \<notin> active then
           (case gsize full_path of
              Inr file_size \<Rightarrow>
                st2\<lparr>orphaned_files := orphaned_files st2 @ [(full_path, file_size)],
                    total_orphaned_size := total_orphaned_size st2 + file_size\<rparr>
            | Inl e \<Rightarrow>
                (print (Warning_cannot_access full_path e) st2)
                  \<lparr>orphaned_files := orphaned_files st2 @ [(full_path, 0)]\<rparr>)
         else st2)"

definition scan_dir :: "string set \<Rightarrow> (string \<Rightarrow> string + nat) \<Rightarrow> walk_state \<Rightarrow> string \<times> string list \<times> string list \<Rightarrow> walk_state" where
  "scan_dir active gsize st w = foldl (scan_file active gsize (fst w)) st (snd (snd w))"

definition scan_walk :: "string set \<Rightarrow> (string \<Rightarrow> string + nat) \<Rightarrow> (string \<times> string list \<times> string list) list \<Rightarrow> walk_state" where
  "scan_walk active gsize ws =
     foldl (scan_dir active gsize)
       \<lparr>printed = [], file_count = 0, orphaned_files = [], total_orphaned_size = 0\<rparr> ws"

text \<open>
  The value \<open>scan_torrents\<close> returns: \<open>None\<close> for \<^verbatim>\<open>(None, None)\<close>, else the list of
  orphaned files and their total size.
\<close>

record scan_out = console +
  result :: "((string \<times> nat) list \<times> nat) option"

text \<open>
  \<open>scan_torrents\<close> itself; \<open>None\<close> when it does not return. The two handlers around the
  walk (lines 210 to 216) have no branch here: the walk swallows listing errors and
  \<open>getsize\<close> raises \<open>OSError\<close> only, which line 203 handles.
\<close>

definition scan_torrents :: "'a scan_env_scheme \<Rightarrow> string \<Rightarrow> scan_out option" where
  "scan_torrents env download_dir =
     (case torrents_info env of
        Inl e \<Rightarrow>
          Some \<lparr>printed = [Scanning_active_torrents, Error_torrent_info e], result = None\<rparr>
      | Inr torrents \<Rightarrow>
          (case process_torrents 0 (length torrents) torrents
                  \<lparr>printed = [Scanning_active_torrents], active_files = {}, active_dirs = {}\<rparr> of
             None \<Rightarrow> None
           | Some st \<Rightarrow>
               (let out = printed st @
                      [Found_torrents (length torrents) (card (active_files st)),
                       Scanning_directory download_dir]
                in case target env of
                     None \<Rightarrow>
                       Some \<lparr>printed = out @ [Error_directory_missing download_dir],
                             result = Some ([], 0)\<rparr>
                   | Some tree \<Rightarrow>
                       (let w = scan_walk (active_files st) (getsize env) (os_walk download_dir tree)
                        in Some \<lparr>printed = out @ printed w @ [Scanned_total (file_count w)],
                                 result = Some (orphaned_files w, total_orphaned_size w)\<rparr>))))"

section \<open>main: report and deletion\<close>

text \<open>
  \<open>get_connection_info\<close> hands the download directory over with a trailing slash
  (lines 97 to 99).
\<close>

definition ensure_trailing_slash :: "string \<Rightarrow> string" where
  "ensure_trailing_slash download_dir =
     (if \<not> endswith download_dir [sep] then download_dir @ [sep] else download_dir)"

text \<open>
  \<^verbatim>\<open>orphaned_files.sort(key=lambda x: x[1], reverse=True)\<close>: a stable sort, which with
  \<open>reverse\<close> keeps the original order among equal keys (the list is reversed, sorted
  and reversed again).
\<close>

definition sort_largest_first :: "(string \<times> nat) list \<Rightarrow> (string \<times> nat) list" where
  "sort_largest_first xs = rev (sort_key snd (rev xs))"

text \<open>
  \<^verbatim>\<open>s.replace(old, new)\<close>: every occurrence of \<open>old\<close>, found from the left and not
  overlapping, is replaced.
\<close>

function replace_from :: "string \<Rightarrow> string \<Rightarrow> string \<Rightarrow> string" where
  "replace_from old new [] = []"
| "replace_from old new (c # cs) =
     (if old \<noteq> [] \<and> prefix old (c # cs)
      then new @ replace_from old new (drop (length old) (c # cs))
      else c # replace_from old new cs)"
  by pat_completeness auto
termination
  by (relation "measure (\<lambda>(old, new, s). length s)") auto

definition str_replace :: "string \<Rightarrow> string \<Rightarrow> string \<Rightarrow> string" where
  "str_replace s old new =
     (if old = [] then new @ concat (map (\<lambda>c. c # new) s) else replace_from old new s)"

text \<open>\<^verbatim>\<open>str(n)\<close> for a length, and the format \<^verbatim>\<open>:>10\<close>.\<close>

definition digit :: "nat \<Rightarrow> char" where
  "digit d = ''0123456789'' ! d"

function str_nat :: "nat \<Rightarrow> string" where
  "str_nat n = (if n < 10 then [digit n] else str_nat (n div 10) @ [digit (n mod 10)])"
  by pat_completeness auto
termination
  by (relation "measure id") auto

declare str_nat.simps [simp del]

definition rjust :: "nat \<Rightarrow> string \<Rightarrow> string" where
  "rjust width s = replicate (width - length s) CHR '' '' @ s"

definition newline :: string where
  "newline = [CHR 0x0A]"

text \<open>
  The environment of \<open>main\<close> adds: whether \<open>test_connection\<close> returns a client; the
  function \<open>format_bytes\<close>, which computes with floating-point numbers and is kept
  as a parameter; the exception of \<^verbatim>\<open>open(output_file, 'w')\<close>, if any; the exception
  of a \<^verbatim>\<open>f.write(s)\<close>, if any, given the strings written before it; the exception of
  closing the file on leaving \<^verbatim>\<open>with\<close>, if any, given the strings written; the content
  of the report file before the run (the strings written to it, \<open>None\<close> when there is no
  file);
  the values of the variables \<open>response\<close> and \<open>confirm\<close>;
  \<^verbatim>\<open>os.remove\<close>, which returns the text of its exception, if any, and changes the
  world; and the world before the first deletion.
\<close>

record 'w env = scan_env +
  connected :: bool
  format_bytes :: "nat \<Rightarrow> string"
  open_report :: "string option"
  report_write :: "string list \<Rightarrow> string \<Rightarrow> string option"
  report_close :: "string list \<Rightarrow> string option"
  report_file :: "string list option"
  response :: string
  confirm :: string
  os_remove :: "string \<Rightarrow> 'w \<Rightarrow> string option \<times> 'w"
  world_before :: 'w

text \<open>
  The path shown for a file (lines 267 and 284):
  \<^verbatim>\<open>display_path = file_path.replace(download_dir, '')\<close>.
\<close>

definition display_path :: "string \<Rightarrow> string \<Rightarrow> string" where
  "display_path download_dir file_path = str_replace file_path download_dir []"

text \<open>
  The strings written to the report file (lines 277 to 285): the header, and one string
  for each entry.
\<close>

definition report_header :: "(nat \<Rightarrow> string) \<Rightarrow> string \<Rightarrow> (string \<times> nat) list \<Rightarrow> nat \<Rightarrow> string list" where
  "report_header fmt download_dir orphaned total_size =
     [''Orphaned Files Report'' @ newline,
      ''Generated by: qBittorrent Orphaned Files Cleaner'' @ newline,
      ''Download Directory: '' @ download_dir @ newline,
      ''Total files: '' @ str_nat (length orphaned) @ newline,
      ''Total size: '' @ fmt total_size @ newline,
      replicate 60 CHR ''='' @ newline @ newline]"

definition report_line :: "(nat \<Rightarrow> string) \<Rightarrow> string \<Rightarrow> string \<times> nat \<Rightarrow> string" where
  "report_line fmt download_dir e =
     rjust 10 (fmt (snd e)) @ '' - '' @ display_path download_dir (fst e) @ newline"

definition report_lines :: "(nat \<Rightarrow> string) \<Rightarrow> string \<Rightarrow> (string \<times> nat) list \<Rightarrow> nat \<Rightarrow> string list" where
  "report_lines fmt download_dir orphaned total_size =
     report_header fmt download_dir orphaned total_size
     @ map (report_line fmt download_dir) orphaned"

text \<open>
  The writes of lines 277 to 285, one after the other: the first that raises ends them.
  The result is what has been written and the exception, if any.
\<close>

fun write_all :: "(string list \<Rightarrow> string \<Rightarrow> string option) \<Rightarrow> string list \<Rightarrow> string list \<Rightarrow> string list \<times> string option" where
  "write_all wr written [] = (written, None)"
| "write_all wr written (s # rest) =
     (case wr written s of
        Some e \<Rightarrow> (written, Some e)
      | None \<Rightarrow> write_all wr (written @ [s]) rest)"

text \<open>
  The \<^verbatim>\<open>try\<close> of lines 275 to 288: the content of the report file after it, and what is
  printed. An exception of \<^verbatim>\<open>open\<close> leaves the file as it was. Mode \<^verbatim>\<open>'w'\<close> empties
  the file; leaving \<^verbatim>\<open>with\<close> closes it, after the last write or after the write that
  raised, and an exception of the closing replaces the one of the write. Every exception
  is caught and reported as a warning. After an exception the file is taken to hold the
  strings whose write returned; what it really holds then depends on the buffering.
\<close>

definition save_report :: "'w env \<Rightarrow> string \<Rightarrow> (string \<times> nat) list \<Rightarrow> nat \<Rightarrow> string list option \<times> message" where
  "save_report env download_dir orphaned total_size =
     (case open_report env of
        Some e \<Rightarrow> (report_file env, Warning_report_not_saved e)
      | None \<Rightarrow>
          (case write_all (report_write env) []
                  (report_lines (format_bytes env) download_dir orphaned total_size) of
             (written, None) \<Rightarrow>
               (case report_close env written of
                  None \<Rightarrow> (Some written, Report_saved)
                | Some e \<Rightarrow> (Some written, Warning_report_not_saved e))
           | (written, Some e) \<Rightarrow>
               (case report_close env written of
                  None \<Rightarrow> (Some written, Warning_report_not_saved e)
                | Some e' \<Rightarrow> (Some written, Warning_report_not_saved e'))))"

record 'w del_state = console +
  deleted_count :: nat
  deleted_size :: nat
  failed_count :: nat
  world :: 'w

text \<open>The deletion loop (lines 301 to 310); \<open>n\<close> is \<^verbatim>\<open>len(orphaned_files)\<close>.\<close>

fun delete_files :: "(string \<Rightarrow> 'w \<Rightarrow> string option \<times> 'w) \<Rightarrow> nat \<Rightarrow> (string \<times> nat) list \<Rightarrow> 'w del_state \<Rightarrow> 'w del_state" where
  "delete_files rm n [] st = st"
| "delete_files rm n ((file_path, sz) # rest) st =
     (case rm file_path (world st) of
        (None, w) \<Rightarrow>
          (let st1 = st\<lparr>deleted_count := deleted_count st + 1,
                         deleted_size := deleted_size st + sz, world := w\<rparr>
           in delete_files rm n rest
                (if deleted_count st1 mod 10 = 0
                 then print (Deleted_progress (deleted_count st1) n) st1 else st1))
      | (Some e, w) \<Rightarrow>
          delete_files rm n rest
            (print (Error_deleting file_path e) (st\<lparr>failed_count := failed_count st + 1, world := w\<rparr>)))"

text \<open>
  What a run of \<open>main\<close> leaves: the console, the exit status, the sorted list and the
  total it worked on (\<open>None\<close> when it exits before), the report file, the counters of
  the deletion loop and the world.
\<close>

record 'w run = console +
  exit_status :: nat
  scan_result :: "((string \<times> nat) list \<times> nat) option"
  report_after :: "string list option"
  deletion :: "(nat \<times> nat \<times> nat) option"
  world_after :: 'w

definition delete_phase :: "'w env \<Rightarrow> (string \<times> nat) list \<Rightarrow> 'w del_state" where
  "delete_phase env orphaned =
     delete_files (os_remove env) (length orphaned) orphaned
       \<lparr>printed = [Deleting_files], deleted_count = 0, deleted_size = 0, failed_count = 0,
        world = world_before env\<rparr>"

text \<open>
  \<open>main\<close> from line 238 on, \<open>download_dir\<close> being what \<open>get_connection_info\<close> returned;
  \<open>None\<close> when \<open>scan_torrents\<close> does not return. Returning from \<open>main\<close> is exit
  status 0, \<^verbatim>\<open>sys.exit(1)\<close> is 1.
\<close>

definition main :: "'w env \<Rightarrow> string \<Rightarrow> 'w run option" where
  "main env download_dir =
     (if \<not> connected env then
        Some \<lparr>printed = [Failed_to_connect], exit_status = 1, scan_result = None,
              report_after = report_file env, deletion = None, world_after = world_before env\<rparr>
      else case scan_torrents env download_dir of
        None \<Rightarrow> None
      | Some out \<Rightarrow>
         (case result out of
            None \<Rightarrow>
              Some \<lparr>printed = printed out @ [Script_error], exit_status = 1, scan_result = None,
                    report_after = report_file env, deletion = None,
                    world_after = world_before env\<rparr>
          | Some (found, total_size) \<Rightarrow>
             (let orphaned = sort_largest_first found;
                  out1 = printed out @ [Report_header (length orphaned) total_size]
              in if orphaned \<noteq> [] then
                   (let out2 = out1
                          @ map (\<lambda>(i, (file_path, sz)).
                                   Top_entry (i + 1) sz (display_path download_dir file_path))
                                (enumerate 0 (take 20 orphaned))
                          @ (if length orphaned > 20 then [More_files (length orphaned - 20)] else []);
                        saved = save_report env download_dir orphaned total_size;
                        report = fst saved;
                        out3 = out2 @ [snd saved]
                    in if response env = ''yes'' then
                         (if confirm env = ''DELETE'' then
                            (let d = delete_phase env orphaned
                             in Some \<lparr>printed = out3 @ printed d
                                         @ [Deleted_summary (deleted_count d) (deleted_size d)]
                                         @ (if failed_count d > 0 then [Failed_summary (failed_count d)] else [])
                                         @ [Done],
                                       exit_status = 0, scan_result = Some (orphaned, total_size),
                                       report_after = report,
                                       deletion = Some (deleted_count d, deleted_size d, failed_count d),
                                       world_after = world d\<rparr>)
                          else
                            Some \<lparr>printed = out3 @ [Deletion_cancelled, Done],
                                  exit_status = 0, scan_result = Some (orphaned, total_size),
                                  report_after = report, deletion = None,
                                  world_after = world_before env\<rparr>)
                       else
                         Some \<lparr>printed = out3 @ [Done],
                               exit_status = 0, scan_result = Some (orphaned, total_size),
                               report_after = report, deletion = None,
                               world_after = world_before env\<rparr>)
                 else
                   Some \<lparr>printed = out1 @ [No_orphans, Done],
                         exit_status = 0, scan_result = Some (orphaned, total_size),
                         report_after = report_file env, deletion = None,
                         world_after = world_before env\<rparr>)))"

section \<open>Notions used in the statements\<close>

text \<open>
  The paths the walk computes, in the order of the walk: \<^verbatim>\<open>os.path.join(root, file)\<close>
  for every file of every directory.
\<close>

definition walked_paths :: "(string \<times> string list \<times> string list) list \<Rightarrow> string list" where
  "walked_paths ws = concat (map (\<lambda>w. map (path_join (fst w)) (snd (snd w))) ws)"

text \<open>The size recorded for an orphaned file: 0 when \<open>getsize\<close> raises.\<close>

definition recorded_size :: "(string \<Rightarrow> string + nat) \<Rightarrow> string \<Rightarrow> nat" where
  "recorded_size gsize p = (case gsize p of Inr n \<Rightarrow> n | Inl e \<Rightarrow> 0)"

text \<open>
  The loop over the parent directories stops from \<open>parent\<close>: it reaches the empty string or
  the save path by taking \<open>dirname\<close>.
\<close>

inductive stops :: "string \<Rightarrow> string \<Rightarrow> bool" for sp :: string where
  stops_here: "parent = [] \<or> parent = sp \<Longrightarrow> stops sp parent"
| stops_up: "parent \<noteq> [] \<Longrightarrow> parent \<noteq> sp \<Longrightarrow> stops sp (dirname parent) \<Longrightarrow> stops sp parent"

text \<open>
  The paths a torrent adds to \<open>active_files\<close> (none when its file list raises), the set
  all torrents add, and the torrents for whose files the loop over the parents stops.
\<close>

definition joined_paths :: "torrent \<Rightarrow> string list" where
  "joined_paths t = (case files t of Inl e \<Rightarrow> [] | Inr ns \<Rightarrow> map (path_join (save_path t)) ns)"

definition live_paths :: "torrent list \<Rightarrow> string set" where
  "live_paths ts = set (concat (map joined_paths ts))"

definition parents_stop :: "torrent \<Rightarrow> bool" where
  "parents_stop t = (\<forall>p \<in> set (joined_paths t). stops (save_path t) (dirname p))"

text \<open>
  A condition on the text of a torrent that makes the loop stop: a save path that is not
  empty and does not end with a separator, and relative file names.
\<close>

definition well_rooted :: "torrent \<Rightarrow> bool" where
  "well_rooted t =
     (save_path t \<noteq> [] \<and> \<not> endswith (save_path t) [sep] \<and>
      (case files t of Inl e \<Rightarrow> True | Inr ns \<Rightarrow> \<forall>n \<in> set ns. \<not> startswith n [sep]))"

text \<open>The entries the walk records for the paths it computes, given the set of active files.\<close>

definition orphans_of :: "string set \<Rightarrow> (string \<Rightarrow> string + nat) \<Rightarrow> string list \<Rightarrow> (string \<times> nat) list" where
  "orphans_of active gsize paths = map (\<lambda>p. (p, recorded_size gsize p)) (filter (\<lambda>p. p \<notin> active) paths)"

text \<open>
  The scenario of the specification: one torrent at \<open>/dl/movie\<close> with the file \<open>a.mkv\<close>,
  and three files on disk of 1000, 50 and 200 bytes.
\<close>

definition scenario_torrents :: "torrent list" where
  "scenario_torrents = [\<lparr>name = ''movie'', save_path = ''/dl/movie'', files = Inr [''a.mkv'']\<rparr>]"

definition scenario_tree :: entry where
  "scenario_tree =
     Dir [(''movie'', Dir [(''a.mkv'', File), (''b.nfo'', File)]),
          (''other'', Dir [(''c.txt'', File)])]"

definition scenario_getsize :: "string \<Rightarrow> string + nat" where
  "scenario_getsize p =
     (if p = ''/dl/movie/a.mkv'' then Inr 1000
      else if p = ''/dl/movie/b.nfo'' then Inr 50
      else if p = ''/dl/other/c.txt'' then Inr 200
      else Inl ''No such file or directory'')"

definition scenario_env :: scan_env where
  "scenario_env =
     \<lparr>torrents_info = Inr scenario_torrents, target = Some scenario_tree,
      getsize = scenario_getsize\<rparr>"

text \<open>The same scenario when the size of \<open>b.nfo\<close> cannot be read.\<close>

definition unreadable_env :: scan_env where
  "unreadable_env =
     scenario_env\<lparr>getsize := (\<lambda>p. if p = ''/dl/movie/b.nfo'' then Inl ''Permission denied''
                                else scenario_getsize p)\<rparr>"

text \<open>
  A run on the scenario: a stand-in for \<open>format_bytes\<close>, a world that is the set of the
  existing paths, on which \<^verbatim>\<open>os.remove\<close> fails for a path that is not there, and the
  operator answering \<open>yes\<close> and \<open>DELETE\<close>.
\<close>

definition scenario_format :: "nat \<Rightarrow> string" where
  "scenario_format n = str_nat n @ '' B''"

definition remove_existing :: "string \<Rightarrow> string set \<Rightarrow> string option \<times> string set" where
  "remove_existing p w = (if p \<in> w then (None, w - {p}) else (Some ''No such file or directory'', w))"

definition scenario_run_env :: "string set env" where
  "scenario_run_env =
     \<lparr>torrents_info = Inr scenario_torrents, target = Some scenario_tree,
      getsize = scenario_getsize, connected = True, format_bytes = scenario_format,
      open_report = None, report_write = (\<lambda>written s. None),
      report_close = (\<lambda>written. None), report_file = None,
      response = ''yes'', confirm = ''DELETE'',
      os_remove = remove_existing,
      world_before = {''/dl/movie/a.mkv'', ''/dl/movie/b.nfo'', ''/dl/other/c.txt''}\<rparr>"

text \<open>The same run when the download directory does not exist.\<close>

definition missing_dir_env :: "string set env" where
  "missing_dir_env = scenario_run_env\<lparr>target := None\<rparr>"

text \<open>
  The canonical form of a path that the specification compares paths by: the Python
  library's \<^verbatim>\<open>os.path.normpath\<close>, which drops empty and \<open>.\<close> segments and trailing
  separators and resolves \<open>..\<close>. The script never calls it.
\<close>

fun split_sep :: "string \<Rightarrow> string list" where
  "split_sep [] = [[]]"
| "split_sep (c # cs) =
     (if c = sep then [] # split_sep cs
      else (case split_sep cs of [] \<Rightarrow> [[c]] | x # xs \<Rightarrow> (c # x) # xs))"

fun join_sep :: "string list \<Rightarrow> string" where
  "join_sep [] = []"
| "join_sep [x] = x"
| "join_sep (x # y # ys) = x @ [sep] @ join_sep (y # ys)"

definition norm_step :: "bool \<Rightarrow> string list \<Rightarrow> string \<Rightarrow> string list" where
  "norm_step initial_slashes new_comps seg =
     (if seg = [] \<or> seg = ''.'' then new_comps
      else if seg \<noteq> ''..'' \<or> (\<not> initial_slashes \<and> new_comps = [])
              \<or> (new_comps \<noteq> [] \<and> last new_comps = ''..'')
           then new_comps @ [seg]
      else if new_comps \<noteq> [] then butlast new_comps
      else new_comps)"

definition normpath :: "string \<Rightarrow> string" where
  "normpath path =
     (if path = [] then ''.''
      else let initial_slashes =
                 (if startswith path [sep]
                  then (if startswith path [sep, sep] \<and> \<not> startswith path [sep, sep, sep]
                        then 2 else 1)
                  else 0 :: nat);
               comps = foldl (norm_step (initial_slashes \<noteq> 0)) [] (split_sep path);
               p = replicate initial_slashes sep @ join_sep comps
           in if p = [] then ''.'' else p)"

text \<open>
  The scenario with the save path written \<open>/dl/./movie\<close>, and with the save path written
  with a trailing separator, \<open>/dl/movie/\<close>.
\<close>

definition dot_torrents :: "torrent list" where
  "dot_torrents = [\<lparr>name = ''movie'', save_path = ''/dl/./movie'', files = Inr [''a.mkv'']\<rparr>]"

definition dot_env :: scan_env where
  "dot_env = scenario_env\<lparr>torrents_info := Inr dot_torrents\<rparr>"

definition slash_torrents :: "torrent list" where
  "slash_torrents = [\<lparr>name = ''movie'', save_path = ''/dl/movie/'', files = Inr [''a.mkv'']\<rparr>]"

definition slash_env :: scan_env where
  "slash_env = scenario_env\<lparr>torrents_info := Inr slash_torrents\<rparr>"

text \<open>The scenario with one more torrent, whose file list cannot be read.\<close>

definition failing_torrent :: torrent where
  "failing_torrent = \<lparr>name = ''broken'', save_path = ''/dl/broken'', files = Inl ''HTTP 500''\<rparr>"

definition failing_env :: scan_env where
  "failing_env = scenario_env\<lparr>torrents_info := Inr (failing_torrent # scenario_torrents)\<rparr>"

text \<open>
  The run on the scenario when \<open>c.txt\<close> is no longer there at the time of the deletion.
\<close>

definition partial_delete_env :: "string set env" where
  "partial_delete_env =
     scenario_run_env\<lparr>world_before := {''/dl/movie/a.mkv'', ''/dl/movie/b.nfo''}\<rparr>"


text \<open>
  What the calls of \<^verbatim>\<open>os.remove\<close> answer when the entries are deleted in order from a
  world, and the bytes each entry frees: its size when its deletion succeeds.
\<close>

fun remove_results :: "(string \<Rightarrow> 'w \<Rightarrow> string option \<times> 'w) \<Rightarrow> (string \<times> nat) list \<Rightarrow> 'w \<Rightarrow> string option list" where
  "remove_results rm [] w = []"
| "remove_results rm (e # rest) w = fst (rm (fst e) w) # remove_results rm rest (snd (rm (fst e) w))"

definition freed :: "(string \<times> nat) list \<Rightarrow> string option list \<Rightarrow> nat list" where
  "freed es rs = map (\<lambda>(e, r). if r = None then snd e else 0) (zip es rs)"

text \<open>
  The names a directory listing can hold: not empty and without a separator. A tree all
  of whose names are such.
\<close>

definition valid_name :: "string \<Rightarrow> bool" where
  "valid_name n = (n \<noteq> [] \<and> sep \<notin> set n)"

fun valid_names :: "entry \<Rightarrow> bool" where
  "valid_names (Dir es) = list_all (\<lambda>ne. valid_name (fst ne) \<and> valid_names (snd ne)) es"
| "valid_names File = True"
| "valid_names Unlistable = True"

text \<open>
  The run on the scenario when the download directory is empty and a report of an earlier
  run is on disk.
\<close>

definition clean_env :: "string set env" where
  "clean_env = scenario_run_env\<lparr>target := Some (Dir []), report_file := Some [''report of an earlier run'']\<rparr>"

section \<open>The walk\<close>

lemma orphaned_scan_file:
  "orphaned_files (scan_file A g root st f) =
     orphaned_files st @ (if path_join root f \<notin> A then [(path_join root f, recorded_size g (path_join root f))] else [])"
  by (simp add: scan_file_def Let_def print_def recorded_size_def split: sum.splits)

lemma total_scan_file:
  "total_orphaned_size (scan_file A g root st f) =
     total_orphaned_size st + (if path_join root f \<notin> A then recorded_size g (path_join root f) else 0)"
  by (simp add: scan_file_def Let_def print_def recorded_size_def split: sum.splits)

lemma orphaned_scan_dir_aux:
  "orphaned_files (foldl (scan_file A g root) st fs) =
     orphaned_files st @ map (\<lambda>p. (p, recorded_size g p)) (filter (\<lambda>p. p \<notin> A) (map (path_join root) fs))"
  by (induction fs arbitrary: st) (simp_all add: orphaned_scan_file)

lemma total_scan_dir_aux:
  "total_orphaned_size (foldl (scan_file A g root) st fs) =
     total_orphaned_size st + sum_list (map (recorded_size g) (filter (\<lambda>p. p \<notin> A) (map (path_join root) fs)))"
  by (induction fs arbitrary: st) (simp_all add: total_scan_file)

lemma orphaned_foldl_scan_dir:
  "orphaned_files (foldl (scan_dir A g) st ws) =
     orphaned_files st @ map (\<lambda>p. (p, recorded_size g p)) (filter (\<lambda>p. p \<notin> A) (walked_paths ws))"
  by (induction ws arbitrary: st) (simp_all add: walked_paths_def scan_dir_def orphaned_scan_dir_aux)

lemma total_foldl_scan_dir:
  "total_orphaned_size (foldl (scan_dir A g) st ws) =
     total_orphaned_size st + sum_list (map (recorded_size g) (filter (\<lambda>p. p \<notin> A) (walked_paths ws)))"
  by (induction ws arbitrary: st) (simp_all add: walked_paths_def scan_dir_def total_scan_dir_aux)

lemma orphaned_scan_walk:
  "orphaned_files (scan_walk A g ws) = map (\<lambda>p. (p, recorded_size g p)) (filter (\<lambda>p. p \<notin> A) (walked_paths ws))"
  by (simp add: scan_walk_def orphaned_foldl_scan_dir)

lemma total_scan_walk:
  "total_orphaned_size (scan_walk A g ws) = sum_list (map (recorded_size g) (filter (\<lambda>p. p \<notin> A) (walked_paths ws)))"
  by (simp add: scan_walk_def total_foldl_scan_dir)

lemma printed_scan_file_mono: "set (printed st) \<subseteq> set (printed (scan_file A g root st f))"
  by (auto simp add: scan_file_def Let_def print_def split: sum.splits)

lemma printed_scan_file_warn:
  "path_join root f \<notin> A \<Longrightarrow> g (path_join root f) = Inl e \<Longrightarrow>
   Warning_cannot_access (path_join root f) e \<in> set (printed (scan_file A g root st f))"
  by (simp add: scan_file_def Let_def print_def)

lemma printed_scan_files_mono: "set (printed st) \<subseteq> set (printed (foldl (scan_file A g root) st fs))"
proof (induction fs arbitrary: st)
  case Nil show ?case by simp
next
  case (Cons f fs)
  have "set (printed st) \<subseteq> set (printed (scan_file A g root st f))" by (rule printed_scan_file_mono)
  also have "\<dots> \<subseteq> set (printed (foldl (scan_file A g root) (scan_file A g root st f) fs))" by (rule Cons.IH)
  finally show ?case by simp
qed

lemma printed_scan_files_warn:
  "f \<in> set fs \<Longrightarrow> path_join root f \<notin> A \<Longrightarrow> g (path_join root f) = Inl e \<Longrightarrow>
   Warning_cannot_access (path_join root f) e \<in> set (printed (foldl (scan_file A g root) st fs))"
proof (induction fs arbitrary: st)
  case Nil then show ?case by simp
next
  case (Cons a fs)
  show ?case
  proof (cases "f = a")
    case True
    with Cons.prems have "Warning_cannot_access (path_join root f) e \<in> set (printed (scan_file A g root st a))"
      by (simp add: printed_scan_file_warn)
    then show ?thesis using printed_scan_files_mono[of "scan_file A g root st a" A g root fs] by auto
  next
    case False
    with Cons.prems have "f \<in> set fs" by simp
    from Cons.IH[OF this Cons.prems(2,3)] show ?thesis by simp
  qed
qed

lemma printed_scan_dirs_mono: "set (printed st) \<subseteq> set (printed (foldl (scan_dir A g) st ws))"
proof (induction ws arbitrary: st)
  case Nil show ?case by simp
next
  case (Cons w ws)
  have "set (printed st) \<subseteq> set (printed (scan_dir A g st w))"
    unfolding scan_dir_def by (rule printed_scan_files_mono)
  also have "\<dots> \<subseteq> set (printed (foldl (scan_dir A g) (scan_dir A g st w) ws))" by (rule Cons.IH)
  finally show ?case by simp
qed

lemma printed_scan_dirs_warn:
  "p \<in> set (walked_paths ws) \<Longrightarrow> p \<notin> A \<Longrightarrow> g p = Inl e \<Longrightarrow>
   Warning_cannot_access p e \<in> set (printed (foldl (scan_dir A g) st ws))"
proof (induction ws arbitrary: st)
  case Nil then show ?case by (simp add: walked_paths_def)
next
  case (Cons w ws)
  from Cons.prems(1) consider "p \<in> path_join (fst w) ` set (snd (snd w))" | "p \<in> set (walked_paths ws)"
    by (auto simp: walked_paths_def)
  then show ?case
  proof cases
    case 1
    then obtain f where f: "f \<in> set (snd (snd w))" "p = path_join (fst w) f" by auto
    with Cons.prems have "Warning_cannot_access p e \<in> set (printed (scan_dir A g st w))"
      unfolding scan_dir_def by (simp add: printed_scan_files_warn)
    then show ?thesis using printed_scan_dirs_mono[of "scan_dir A g st w" A g ws] by auto
  next
    case 2
    from Cons.IH[OF this Cons.prems(2,3)] show ?thesis by simp
  qed
qed

lemma printed_scan_walk_warn:
  "p \<in> set (walked_paths ws) \<Longrightarrow> p \<notin> A \<Longrightarrow> g p = Inl e \<Longrightarrow>
   Warning_cannot_access p e \<in> set (printed (scan_walk A g ws))"
  unfolding scan_walk_def by (rule printed_scan_dirs_warn)

section \<open>When the loop over the parent directories stops\<close>

lemma stops_track_parents: "stops sp p \<Longrightarrow> \<exists>r. track_parents sp p d = Some r"
proof (induction arbitrary: d rule: stops.induct)
  case (stops_here parent)
  then show ?case by (subst track_parents.simps) auto
next
  case (stops_up parent)
  from stops_up.IH[of "insert parent d"] obtain r where
    "track_parents sp (dirname parent) (insert parent d) = Some r" by blast
  with stops_up.hyps(1,2) show ?case by (subst track_parents.simps) simp
qed

lemma track_parents_stops: "track_parents sp p d = Some r \<Longrightarrow> stops sp p"
proof (rule track_parents.raw_induct[where P = "\<lambda>sp p d r. stops sp p"])
  fix tp :: "string \<Rightarrow> string \<Rightarrow> string set \<Rightarrow> string set option" and sp p d r
  assume ih: "\<And>sp p d r. tp sp p d = Some r \<Longrightarrow> stops sp p"
    and eq: "(if p \<noteq> [] \<and> p \<noteq> sp then tp sp (dirname p) (insert p d) else Some d) = Some r"
  show "stops sp p"
  proof (cases "p \<noteq> [] \<and> p \<noteq> sp")
    case True
    with eq have "tp sp (dirname p) (insert p d) = Some r" by simp
    from ih[OF this] True show ?thesis by (auto intro: stops_up)
  next
    case False
    then show ?thesis by (auto intro: stops_here)
  qed
qed

lemma track_parents_None_iff: "track_parents sp p d = None \<longleftrightarrow> \<not> stops sp p"
  using stops_track_parents[of sp p d] track_parents_stops[of sp p d] by (cases "track_parents sp p d") auto

lemma rstrip_sep_append:
  "rstrip_sep (a @ b) = (if set b \<subseteq> {sep} then rstrip_sep a else a @ rstrip_sep b)"
  by (auto simp: rstrip_sep_def dropWhile_append)

lemma rstrip_sep_id: "a \<noteq> [] \<Longrightarrow> last a \<noteq> sep \<Longrightarrow> rstrip_sep a = a"
  by (cases a rule: rev_cases) (auto simp: rstrip_sep_def)

lemma head_no_sep: "sep \<notin> set r \<Longrightarrow> rev (dropWhile (\<lambda>c. c \<noteq> sep) (rev (a @ sep # r))) = a @ [sep]"
  by (simp add: dropWhile_append)

lemma not_all_sep: "a \<noteq> [] \<Longrightarrow> last a \<noteq> sep \<Longrightarrow> a @ b \<noteq> replicate n sep"
proof
  assume a: "a \<noteq> []" "last a \<noteq> sep" and eq: "a @ b = replicate n sep"
  from a have "last a \<in> set (a @ b)" by simp
  with eq have "last a \<in> set (replicate n sep)" by simp
  with a(2) show False by (auto split: if_splits)
qed

lemma dirname_below:
  assumes sp: "sp \<noteq> []" "last sp \<noteq> sep"
  shows "dirname (sp @ sep # r) = sp \<or> (\<exists>r'. dirname (sp @ sep # r) = sp @ sep # r' \<and> length r' < length r)"
proof (cases "sep \<in> set r")
  case False
  then have h: "rev (dropWhile (\<lambda>c. c \<noteq> sep) (rev (sp @ sep # r))) = sp @ [sep]" by (rule head_no_sep)
  have "rstrip_sep (sp @ [sep]) = sp" using sp by (simp add: rstrip_sep_append rstrip_sep_id)
  moreover have "sp @ [sep] \<noteq> replicate (length (sp @ [sep])) sep" using sp by (rule not_all_sep)
  ultimately have "dirname (sp @ sep # r) = sp" unfolding dirname_def h Let_def by simp
  then show ?thesis ..
next
  case True
  then obtain r1 r2 where r: "r = r1 @ sep # r2" "sep \<notin> set r2" by (auto dest: split_list_last)
  have "sp @ sep # r = (sp @ sep # r1) @ sep # r2" using r by simp
  then have h: "rev (dropWhile (\<lambda>c. c \<noteq> sep) (rev (sp @ sep # r))) = (sp @ sep # r1) @ [sep]"
    using head_no_sep[OF r(2), of "sp @ sep # r1"] by simp
  have ne: "(sp @ sep # r1) @ [sep] \<noteq> replicate (length ((sp @ sep # r1) @ [sep])) sep"
    using not_all_sep[OF sp, of "sep # r1 @ [sep]" "length ((sp @ sep # r1) @ [sep])"] by simp
  have rs: "rstrip_sep ((sp @ sep # r1) @ [sep]) = rstrip_sep (sp @ sep # r1)"
    by (simp add: rstrip_sep_def)
  have "dirname (sp @ sep # r) = rstrip_sep ((sp @ sep # r1) @ [sep])"
    unfolding dirname_def h Let_def using ne by simp
  with rs have d: "dirname (sp @ sep # r) = rstrip_sep (sp @ sep # r1)" by simp
  show ?thesis
  proof (cases "set r1 \<subseteq> {sep}")
    case True
    then have "rstrip_sep (sp @ sep # r1) = sp"
      using sp rstrip_sep_append[of sp "sep # r1"] by (simp add: rstrip_sep_id)
    with d show ?thesis by simp
  next
    case False
    then have "rstrip_sep (sp @ sep # r1) = sp @ sep # rstrip_sep r1"
      using rstrip_sep_append[of "sp @ [sep]" r1] by simp
    moreover have "length (rstrip_sep r1) \<le> length r1"
      by (simp add: rstrip_sep_def length_dropWhile_le[of _ "rev r1", simplified])
    ultimately show ?thesis using d r by auto
  qed
qed

lemma stops_below:
  assumes sp: "sp \<noteq> []" "last sp \<noteq> sep"
  shows "stops sp (sp @ sep # r)"
proof (induction r rule: length_induct)
  case (1 r)
  have step: "stops sp (dirname (sp @ sep # r))"
  proof (rule disjE[OF dirname_below[OF sp, of r]])
    assume "dirname (sp @ sep # r) = sp"
    then show ?thesis by (simp add: stops_here)
  next
    assume "\<exists>r'. dirname (sp @ sep # r) = sp @ sep # r' \<and> length r' < length r"
    then obtain r' where r': "dirname (sp @ sep # r) = sp @ sep # r'" "length r' < length r" by blast
    from 1 r'(2) have "stops sp (sp @ sep # r')" by blast
    with r'(1) show ?thesis by simp
  qed
  have "sp @ sep # r \<noteq> []" "sp @ sep # r \<noteq> sp" by simp_all
  then show ?case using step by (rule stops_up)
qed

lemma last_not_sep: "sp \<noteq> [] \<Longrightarrow> \<not> endswith sp [sep] \<Longrightarrow> last sp \<noteq> sep"
  by (cases sp rule: rev_cases) (simp_all add: endswith_def)

lemma stops_dirname_join:
  assumes "sp \<noteq> []" "\<not> endswith sp [sep]" "\<not> startswith n [sep]"
  shows "stops sp (dirname (path_join sp n))"
proof -
  from assms have l: "last sp \<noteq> sep" by (simp add: last_not_sep)
  have pj: "path_join sp n = sp @ sep # n" using assms by (simp add: path_join_def)
  show ?thesis
  proof (rule disjE[OF dirname_below[OF assms(1) l, of n]])
    assume "dirname (sp @ sep # n) = sp"
    then show ?thesis unfolding pj by (simp add: stops_here)
  next
    assume "\<exists>r'. dirname (sp @ sep # n) = sp @ sep # r' \<and> length r' < length n"
    then obtain r' where "dirname (sp @ sep # n) = sp @ sep # r'" by blast
    then show ?thesis unfolding pj using stops_below[OF assms(1) l, of r'] by simp
  qed
qed

lemma dirname_root: "dirname [sep] = [sep]"
  by (simp add: dirname_def)

section \<open>The set of active files\<close>

lemma add_files_Some:
  "add_files sp ns st = Some st' \<Longrightarrow>
     active_files st' = active_files st \<union> path_join sp ` set ns \<and> printed st' = printed st \<and>
     (\<forall>n \<in> set ns. stops sp (dirname (path_join sp n)))"
proof (induction ns arbitrary: st)
  case Nil
  then show ?case by simp
next
  case (Cons n ns)
  let ?st1 = "st\<lparr>active_files := insert (path_join sp n) (active_files st)\<rparr>"
  from Cons.prems obtain ad where
    ad: "track_parents sp (dirname (path_join sp n)) (active_dirs ?st1) = Some ad"
    and rest: "add_files sp ns (?st1\<lparr>active_dirs := ad\<rparr>) = Some st'"
    by (auto simp: Let_def split: option.splits)
  from track_parents_stops[OF ad] have "stops sp (dirname (path_join sp n))" .
  with Cons.IH[OF rest] show ?case by auto
qed

lemma add_files_returns:
  "\<forall>n \<in> set ns. stops sp (dirname (path_join sp n)) \<Longrightarrow> \<exists>st'. add_files sp ns st = Some st'"
proof (induction ns arbitrary: st)
  case Nil
  then show ?case by simp
next
  case (Cons n ns)
  let ?st1 = "st\<lparr>active_files := insert (path_join sp n) (active_files st)\<rparr>"
  from Cons.prems have "stops sp (dirname (path_join sp n))" by simp
  from stops_track_parents[OF this, of "active_dirs ?st1"] obtain ad where
    ad: "track_parents sp (dirname (path_join sp n)) (active_dirs ?st1) = Some ad" by blast
  from Cons.prems have "\<forall>n \<in> set ns. stops sp (dirname (path_join sp n))" by simp
  from Cons.IH[OF this, of "?st1\<lparr>active_dirs := ad\<rparr>"] ad show ?case
    by (simp add: Let_def)
qed

lemma process_torrents_Cons_Inl:
  "files t = Inl e \<Longrightarrow>
   process_torrents i c (t # ts) st =
     process_torrents (i + 1) c ts
       (print (Warning_torrent_files (name t) e) (print (Processing_torrent (i + 1) c) st))"
  by (simp add: Let_def)

lemma process_torrents_Cons_Inr:
  "files t = Inr ns \<Longrightarrow>
   process_torrents i c (t # ts) st =
     (case add_files (save_path t) ns (print (Processing_torrent (i + 1) c) st) of
        None \<Rightarrow> None | Some st2 \<Rightarrow> process_torrents (i + 1) c ts st2)"
  by (simp add: Let_def)

lemma process_torrents_printed_mono:
  "process_torrents i c ts st = Some st' \<Longrightarrow> set (printed st) \<subseteq> set (printed st')"
proof (induction ts arbitrary: i st)
  case Nil
  then show ?case by simp
next
  case (Cons t ts)
  show ?case
  proof (cases "files t")
    case (Inl e)
    with Cons.prems have "process_torrents (i + 1) c ts
       (print (Warning_torrent_files (name t) e) (print (Processing_torrent (i + 1) c) st)) = Some st'"
      by (simp add: process_torrents_Cons_Inl)
    from Cons.IH[OF this] show ?thesis by (auto simp: print_def)
  next
    case (Inr ns)
    with Cons.prems obtain st2 where
      a: "add_files (save_path t) ns (print (Processing_torrent (i + 1) c) st) = Some st2"
      and r: "process_torrents (i + 1) c ts st2 = Some st'"
      by (auto simp: process_torrents_Cons_Inr split: option.splits)
    from add_files_Some[OF a] have "printed st2 = printed st @ [Processing_torrent (i + 1) c]"
      by (simp add: print_def)
    with Cons.IH[OF r] show ?thesis by auto
  qed
qed

lemma process_torrents_Some:
  "process_torrents i c ts st = Some st' \<Longrightarrow>
     active_files st' = active_files st \<union> live_paths ts \<and> (\<forall>t \<in> set ts. parents_stop t) \<and>
     (\<forall>t \<in> set ts. \<forall>e. files t = Inl e \<longrightarrow> Warning_torrent_files (name t) e \<in> set (printed st'))"
proof (induction ts arbitrary: i st)
  case Nil
  then show ?case by (simp add: live_paths_def)
next
  case (Cons t ts)
  show ?case
  proof (cases "files t")
    case (Inl e)
    let ?st2 = "print (Warning_torrent_files (name t) e) (print (Processing_torrent (i + 1) c) st)"
    from Inl Cons.prems have r: "process_torrents (i + 1) c ts ?st2 = Some st'"
      by (simp add: process_torrents_Cons_Inl)
    from process_torrents_printed_mono[OF r]
    have w: "Warning_torrent_files (name t) e \<in> set (printed st')" by (auto simp: print_def)
    have j: "joined_paths t = []" using Inl by (simp add: joined_paths_def)
    have af: "active_files ?st2 = active_files st" by (simp add: print_def)
    from Cons.IH[OF r] w Inl j af show ?thesis
      by (auto simp: live_paths_def parents_stop_def)
  next
    case (Inr ns)
    with Cons.prems obtain st2 where
      a: "add_files (save_path t) ns (print (Processing_torrent (i + 1) c) st) = Some st2"
      and r: "process_torrents (i + 1) c ts st2 = Some st'"
      by (auto simp: process_torrents_Cons_Inr split: option.splits)
    have j: "joined_paths t = map (path_join (save_path t)) ns" using Inr by (simp add: joined_paths_def)
    from add_files_Some[OF a] have
      af: "active_files st2 = active_files st \<union> set (joined_paths t)"
      and ps: "parents_stop t"
      by (auto simp: j parents_stop_def print_def)
    from Cons.IH[OF r] af ps Inr show ?thesis
      by (auto simp: live_paths_def)
  qed
qed

lemma process_torrents_returns:
  "\<forall>t \<in> set ts. parents_stop t \<Longrightarrow> \<exists>st'. process_torrents i c ts st = Some st'"
proof (induction ts arbitrary: i st)
  case Nil
  then show ?case by simp
next
  case (Cons t ts)
  from Cons.prems have rest: "\<forall>t \<in> set ts. parents_stop t" by simp
  show ?case
  proof (cases "files t")
    case (Inl e)
    with Cons.IH[OF rest] show ?thesis by (simp add: process_torrents_Cons_Inl)
  next
    case (Inr ns)
    from Cons.prems Inr have "\<forall>n \<in> set ns. stops (save_path t) (dirname (path_join (save_path t) n))"
      by (simp add: parents_stop_def joined_paths_def)
    from add_files_returns[OF this] obtain st2 where
      "add_files (save_path t) ns (print (Processing_torrent (i + 1) c) st) = Some st2" by blast
    with Cons.IH[OF rest, of "i + 1" st2] Inr show ?thesis
      by (simp add: process_torrents_Cons_Inr)
  qed
qed

lemma process_torrents_append:
  "process_torrents i n (xs @ ys) st =
     (case process_torrents i n xs st of
        None \<Rightarrow> None
      | Some st1 \<Rightarrow> process_torrents (i + length xs) n ys st1)"
proof (induction xs arbitrary: i st)
  case Nil
  show ?case by simp
next
  case (Cons t xs)
  show ?case
  proof (cases "files t")
    case (Inl e)
    then show ?thesis by (simp add: Let_def Cons.IH cong: option.case_cong)
  next
    case (Inr ns)
    then show ?thesis by (simp add: Let_def Cons.IH split: option.splits)
  qed
qed

section \<open>What scan\_torrents returns\<close>

lemma well_rooted_parents_stop: "well_rooted t \<Longrightarrow> parents_stop t"
  by (cases "files t") (auto simp: well_rooted_def parents_stop_def joined_paths_def intro: stops_dirname_join)

lemma sum_list_orphans_of: "sum_list (map snd (orphans_of A g ps)) = sum_list (map (recorded_size g) (filter (\<lambda>p. p \<notin> A) ps))"
  by (simp add: orphans_of_def comp_def)

lemma scan_torrents_Inr:
  assumes "torrents_info env = Inr ts"
    and "process_torrents 0 (length ts) ts
           \<lparr>printed = [Scanning_active_torrents], active_files = {}, active_dirs = {}\<rparr> = Some st"
  shows "scan_torrents env dd =
     Some (case target env of
        None \<Rightarrow> \<lparr>printed = printed st @ [Found_torrents (length ts) (card (active_files st)),
                        Scanning_directory dd, Error_directory_missing dd],
                  result = Some ([], 0)\<rparr>
      | Some tree \<Rightarrow>
          \<lparr>printed = printed st @ [Found_torrents (length ts) (card (active_files st)),
                        Scanning_directory dd]
                     @ printed (scan_walk (active_files st) (getsize env) (os_walk dd tree))
                     @ [Scanned_total (file_count (scan_walk (active_files st) (getsize env) (os_walk dd tree)))],
            result = Some (orphaned_files (scan_walk (active_files st) (getsize env) (os_walk dd tree)),
                           total_orphaned_size (scan_walk (active_files st) (getsize env) (os_walk dd tree)))\<rparr>)"
  using assms by (simp add: scan_torrents_def Let_def split: option.splits)

lemma scan_torrents_None_iff:
  assumes "torrents_info env = Inr ts"
  shows "scan_torrents env dd = None \<longleftrightarrow> \<not> (\<forall>t \<in> set ts. parents_stop t)"
proof (cases "process_torrents 0 (length ts) ts
           \<lparr>printed = [Scanning_active_torrents], active_files = {}, active_dirs = {}\<rparr>")
  case None
  then have "scan_torrents env dd = None" using assms by (simp add: scan_torrents_def)
  moreover have "\<not> (\<forall>t \<in> set ts. parents_stop t)"
    using process_torrents_returns[of ts 0 "length ts"
        "\<lparr>printed = [Scanning_active_torrents], active_files = {}, active_dirs = {}\<rparr>"] None
    by auto
  ultimately show ?thesis by simp
next
  case (Some st)
  from scan_torrents_Inr[OF assms Some] have "scan_torrents env dd \<noteq> None" by simp
  moreover from process_torrents_Some[OF Some] have "\<forall>t \<in> set ts. parents_stop t" by simp
  ultimately show ?thesis by simp
qed

lemma scan_torrents_walk:
  assumes info: "torrents_info env = Inr ts" and tgt: "target env = Some tree"
    and stop: "\<forall>t \<in> set ts. parents_stop t"
  shows "\<exists>out. scan_torrents env dd = Some out \<and>
           result out = Some (orphans_of (live_paths ts) (getsize env) (walked_paths (os_walk dd tree)),
                              sum_list (map snd (orphans_of (live_paths ts) (getsize env) (walked_paths (os_walk dd tree))))) \<and>
           (\<forall>p e. p \<in> set (walked_paths (os_walk dd tree)) \<longrightarrow> p \<notin> live_paths ts \<longrightarrow> getsize env p = Inl e \<longrightarrow>
                 Warning_cannot_access p e \<in> set (printed out)) \<and>
           (\<forall>t \<in> set ts. \<forall>e. files t = Inl e \<longrightarrow> Warning_torrent_files (name t) e \<in> set (printed out))"
proof -
  let ?st0 = "\<lparr>printed = [Scanning_active_torrents], active_files = {}, active_dirs = {}\<rparr>"
  from process_torrents_returns[OF stop, of 0 "length ts" ?st0] obtain st where
    st: "process_torrents 0 (length ts) ts ?st0 = Some st" by blast
  from process_torrents_Some[OF st] have af: "active_files st = live_paths ts"
    and warn: "\<forall>t \<in> set ts. \<forall>e. files t = Inl e \<longrightarrow> Warning_torrent_files (name t) e \<in> set (printed st)"
    by simp_all
  let ?w = "scan_walk (live_paths ts) (getsize env) (os_walk dd tree)"
  let ?out = "\<lparr>printed = printed st @ [Found_torrents (length ts) (card (live_paths ts)), Scanning_directory dd]
                     @ printed ?w @ [Scanned_total (file_count ?w)],
            result = Some (orphaned_files ?w, total_orphaned_size ?w)\<rparr>"
  have s: "scan_torrents env dd = Some ?out"
    using scan_torrents_Inr[OF info st, of dd] tgt af by simp
  have r: "result ?out = Some (orphans_of (live_paths ts) (getsize env) (walked_paths (os_walk dd tree)),
                              sum_list (map snd (orphans_of (live_paths ts) (getsize env) (walked_paths (os_walk dd tree)))))"
    by (simp add: orphaned_scan_walk total_scan_walk sum_list_orphans_of) (simp add: orphans_of_def)
  have w1: "\<forall>p e. p \<in> set (walked_paths (os_walk dd tree)) \<longrightarrow> p \<notin> live_paths ts \<longrightarrow> getsize env p = Inl e \<longrightarrow>
                 Warning_cannot_access p e \<in> set (printed ?out)"
    using printed_scan_walk_warn[of _ "os_walk dd tree" "live_paths ts" "getsize env"] by simp
  have w2: "\<forall>t \<in> set ts. \<forall>e. files t = Inl e \<longrightarrow> Warning_torrent_files (name t) e \<in> set (printed ?out)"
    using warn by simp
  from s r w1 w2 show ?thesis by blast
qed

lemma scan_torrents_missing:
  assumes info: "torrents_info env = Inr ts" and tgt: "target env = None"
    and stop: "\<forall>t \<in> set ts. parents_stop t"
  shows "\<exists>out. scan_torrents env dd = Some out \<and> result out = Some ([], 0) \<and>
           Error_directory_missing dd \<in> set (printed out)"
proof -
  let ?st0 = "\<lparr>printed = [Scanning_active_torrents], active_files = {}, active_dirs = {}\<rparr>"
  from process_torrents_returns[OF stop, of 0 "length ts" ?st0] obtain st where
    st: "process_torrents 0 (length ts) ts ?st0 = Some st" by blast
  show ?thesis using scan_torrents_Inr[OF info st, of dd] tgt by simp
qed

section \<open>The scenario\<close>

lemmas path_eval = path_join_def startswith_def endswith_def sep_def suffix_to_prefix


lemma scenario_walk:
  "os_walk ''/dl/'' scenario_tree =
     [(''/dl/'', [''movie'', ''other''], []),
      (''/dl/movie'', [], [''a.mkv'', ''b.nfo'']),
      (''/dl/other'', [], [''c.txt''])]"
  by (simp add: scenario_tree_def path_eval)

lemma scenario_walked:
  "walked_paths (os_walk ''/dl/'' scenario_tree) =
     [''/dl/movie/a.mkv'', ''/dl/movie/b.nfo'', ''/dl/other/c.txt'']"
  by (simp add: scenario_walk walked_paths_def path_eval)

lemma scenario_live: "live_paths scenario_torrents = {''/dl/movie/a.mkv''}"
  by (simp add: live_paths_def joined_paths_def scenario_torrents_def path_eval)

lemma scenario_well_rooted: "\<forall>t \<in> set scenario_torrents. well_rooted t"
  by (simp add: scenario_torrents_def well_rooted_def path_eval)

lemma scenario_parents_stop: "\<forall>t \<in> set scenario_torrents. parents_stop t"
  using scenario_well_rooted by (blast intro: well_rooted_parents_stop)

section \<open>Sorting and main\<close>

lemma sum_list_insort_key:
  fixes f :: "'a \<Rightarrow> nat"
  shows "sum_list (map f (insort_key k x xs)) = f x + sum_list (map f xs)"
  by (induction xs) simp_all

lemma sum_list_sort_key:
  fixes f :: "'a \<Rightarrow> nat"
  shows "sum_list (map f (sort_key k xs)) = sum_list (map f xs)"
  by (induction xs) (simp_all add: sum_list_insort_key)

lemma sum_list_sort_largest_first:
  "sum_list (map snd (sort_largest_first xs)) = sum_list (map snd xs)"
proof -
  have "sum_list (map snd (sort_largest_first xs)) = sum_list (rev (map snd (sort_key snd (rev xs))))"
    by (simp add: sort_largest_first_def rev_map)
  also have "\<dots> = sum_list (map snd (sort_key snd (rev xs)))" by (rule sum_list_rev)
  also have "\<dots> = sum_list (map snd (rev xs))" by (rule sum_list_sort_key)
  also have "\<dots> = sum_list (rev (map snd xs))" by (simp add: rev_map)
  also have "\<dots> = sum_list (map snd xs)" by (rule sum_list_rev)
  finally show ?thesis .
qed

lemma sorted_sort_largest_first:
  "sorted_wrt (\<lambda>a b. b \<le> a) (map snd (sort_largest_first xs))"
proof -
  have "sorted (map snd (sort_key snd (rev xs)))" by (rule sorted_sort_key)
  then have "sorted_wrt (\<lambda>a b. b \<le> a) (rev (map snd (sort_key snd (rev xs))))"
    by (simp add: sorted_wrt_rev)
  then show ?thesis by (simp add: sort_largest_first_def rev_map)
qed

lemma set_sort_largest_first: "set (sort_largest_first xs) = set xs"
  by (simp add: sort_largest_first_def)

lemma scan_torrents_total:
  assumes "scan_torrents env dd = Some out" and "result out = Some (found, total_size)"
  shows "total_size = sum_list (map snd found)"
proof (cases "torrents_info env")
  case (Inl e)
  with assms show ?thesis by (auto simp: scan_torrents_def)
next
  case (Inr ts)
  with assms(1) obtain st where st: "process_torrents 0 (length ts) ts
      \<lparr>printed = [Scanning_active_torrents], active_files = {}, active_dirs = {}\<rparr> = Some st"
    by (auto simp: scan_torrents_def split: option.splits)
  show ?thesis
  proof (cases "target env")
    case None
    with scan_torrents_Inr[OF Inr st, of dd] assms show ?thesis by auto
  next
    case (Some tree)
    with scan_torrents_Inr[OF Inr st, of dd] assms
    have "found = orphaned_files (scan_walk (active_files st) (getsize env) (os_walk dd tree))"
      and "total_size = total_orphaned_size (scan_walk (active_files st) (getsize env) (os_walk dd tree))"
      by auto
    then show ?thesis by (simp add: orphaned_scan_walk total_scan_walk comp_def)
  qed
qed

lemma main_scan_result:
  assumes "main env dd = Some r" and "scan_result r = Some (orphaned, total_size)"
  shows "\<exists>out found. scan_torrents env dd = Some out \<and> result out = Some (found, total_size) \<and>
           orphaned = sort_largest_first found"
proof -
  from assms have c: "connected env" by (auto simp: main_def split: if_splits)
  with assms(1) obtain out where out: "scan_torrents env dd = Some out"
    by (auto simp: main_def split: option.splits)
  show ?thesis
  proof (cases "result out")
    case None
    with assms c out show ?thesis by (auto simp: main_def)
  next
    case (Some ft)
    obtain found t where ft: "ft = (found, t)" by (cases ft)
    from assms c out Some ft have "orphaned = sort_largest_first found \<and> total_size = t"
      by (auto simp: main_def Let_def split: if_splits)
    with out Some ft show ?thesis by auto
  qed
qed

lemma main_returns:
  assumes "connected env" and "scan_torrents env dd = Some out" and "result out = Some (found, total_size)"
  shows "\<exists>r. main env dd = Some r \<and> scan_result r = Some (sort_largest_first found, total_size) \<and>
           exit_status r = 0"
  using assms by (simp add: main_def Let_def)

lemma scenario_run_scan:
  "\<exists>out. scan_torrents scenario_run_env ''/dl/'' = Some out \<and>
     result out = Some ([(''/dl/movie/b.nfo'', 50), (''/dl/other/c.txt'', 200)], 250)"
proof -
  have h1: "torrents_info scenario_run_env = Inr scenario_torrents"
    by (simp add: scenario_run_env_def)
  have h2: "target scenario_run_env = Some scenario_tree"
    by (simp add: scenario_run_env_def)
  have g: "getsize scenario_run_env = scenario_getsize"
    by (simp add: scenario_run_env_def)
  from scan_torrents_walk[OF h1 h2 scenario_parents_stop, of "''/dl/''"] show ?thesis
    by (auto simp: g scenario_walked scenario_live orphans_of_def recorded_size_def scenario_getsize_def)
qed

lemma scenario_sorted:
  "sort_largest_first [(''/dl/movie/b.nfo'', 50), (''/dl/other/c.txt'', 200::nat)] =
     [(''/dl/other/c.txt'', 200), (''/dl/movie/b.nfo'', 50)]"
  by (simp add: sort_largest_first_def)

lemma main_no_orphans:
  assumes "connected env" and "scan_torrents env dd = Some out" and "result out = Some ([], t)"
  shows "main env dd =
     Some \<lparr>printed = printed out @ [Report_header 0 t, No_orphans, Done], exit_status = 0,
           scan_result = Some ([], t), report_after = report_file env, deletion = None,
           world_after = world_before env\<rparr>"
  using assms by (simp add: main_def sort_largest_first_def)

lemma normpath_dot: "normpath (path_join ''/dl/./movie'' ''a.mkv'') = normpath ''/dl/movie/a.mkv''"
  by (simp add: normpath_def path_eval norm_step_def Let_def)

lemma dot_live: "live_paths dot_torrents = {''/dl/./movie/a.mkv''}"
  by (simp add: live_paths_def joined_paths_def dot_torrents_def path_eval)

lemma dot_parents_stop: "\<forall>t \<in> set dot_torrents. parents_stop t"
proof -
  have "\<forall>t \<in> set dot_torrents. well_rooted t"
    by (simp add: dot_torrents_def well_rooted_def path_eval)
  then show ?thesis by (blast intro: well_rooted_parents_stop)
qed

lemma dot_scan:
  "map_option result (scan_torrents dot_env ''/dl/'') =
     Some (Some ([(''/dl/movie/a.mkv'', 1000), (''/dl/movie/b.nfo'', 50), (''/dl/other/c.txt'', 200)], 1250))"
proof -
  have h1: "torrents_info dot_env = Inr dot_torrents" by (simp add: dot_env_def)
  have h2: "target dot_env = Some scenario_tree" by (simp add: dot_env_def scenario_env_def)
  have g: "getsize dot_env = scenario_getsize" by (simp add: dot_env_def scenario_env_def)
  from scan_torrents_walk[OF h1 h2 dot_parents_stop, of "''/dl/''"] show ?thesis
    by (auto simp: g scenario_walked dot_live orphans_of_def recorded_size_def scenario_getsize_def)
qed

lemma not_stops_root: "sp \<noteq> [sep] \<Longrightarrow> \<not> stops sp [sep]"
proof
  assume sp: "sp \<noteq> [sep]" and s: "stops sp [sep]"
  have "stops sp p \<Longrightarrow> p = [sep] \<Longrightarrow> False" for p
    by (induction rule: stops.induct) (use sp in \<open>auto simp: dirname_root\<close>)
  from this[OF s] show False by simp
qed

lemma slash_not_stop: "\<not> parents_stop (hd slash_torrents)"
proof -
  have d1: "dirname (path_join ''/dl/movie/'' ''a.mkv'') = ''/dl/movie''"
    by (simp add: dirname_def rstrip_sep_def path_eval)
  have d2: "dirname ''/dl/movie'' = ''/dl''" by (simp add: dirname_def rstrip_sep_def sep_def)
  have d3: "dirname ''/dl'' = ''/''" by (simp add: dirname_def rstrip_sep_def sep_def)
  have r: "\<not> stops ''/dl/movie/'' ''/''" using not_stops_root[of "''/dl/movie/''"] by (simp add: sep_def)
  have s3: "\<not> stops ''/dl/movie/'' ''/dl''"
  proof
    assume "stops ''/dl/movie/'' ''/dl''"
    then show False using r d3 by (cases rule: stops.cases) auto
  qed
  have s2: "\<not> stops ''/dl/movie/'' ''/dl/movie''"
  proof
    assume "stops ''/dl/movie/'' ''/dl/movie''"
    then show False using s3 d2 by (cases rule: stops.cases) auto
  qed
  show ?thesis
    using s2 d1 by (simp add: parents_stop_def slash_torrents_def joined_paths_def)
qed

lemma slash_scan_never_returns: "scan_torrents slash_env ''/dl/'' = None"
proof -
  have h1: "torrents_info slash_env = Inr slash_torrents" by (simp add: slash_env_def)
  have "\<not> (\<forall>t \<in> set slash_torrents. parents_stop t)"
    using slash_not_stop by (simp add: slash_torrents_def)
  with scan_torrents_None_iff[OF h1, of "''/dl/''"] show ?thesis by simp
qed

lemma scan_torrents_not_a_directory:
  assumes "torrents_info env = Inr ts" and "target env = Some File"
    and "\<forall>t \<in> set ts. parents_stop t"
  shows "\<exists>out. scan_torrents env dd = Some out \<and> result out = Some ([], 0)"
  using scan_torrents_walk[OF assms, of dd] by (auto simp: orphans_of_def walked_paths_def)

lemma scan_torrents_result:
  assumes info: "torrents_info env = Inr ts" and stop: "\<forall>t \<in> set ts. parents_stop t"
  shows "\<exists>out. scan_torrents env dd = Some out \<and>
           result out = Some (case target env of None \<Rightarrow> ([], 0)
              | Some tree \<Rightarrow>
                  (orphans_of (live_paths ts) (getsize env) (walked_paths (os_walk dd tree)),
                   sum_list (map snd (orphans_of (live_paths ts) (getsize env) (walked_paths (os_walk dd tree)))))) \<and>
           (\<forall>t \<in> set ts. \<forall>e. files t = Inl e \<longrightarrow> Warning_torrent_files (name t) e \<in> set (printed out))"
proof -
  let ?st0 = "\<lparr>printed = [Scanning_active_torrents], active_files = {}, active_dirs = {}\<rparr>"
  from process_torrents_returns[OF stop, of 0 "length ts" ?st0] obtain st where
    st: "process_torrents 0 (length ts) ts ?st0 = Some st" by blast
  from process_torrents_Some[OF st] have af: "active_files st = live_paths ts"
    and warn: "\<forall>t \<in> set ts. \<forall>e. files t = Inl e \<longrightarrow> Warning_torrent_files (name t) e \<in> set (printed st)"
    by simp_all
  show ?thesis
  proof (cases "target env")
    case None
    with scan_torrents_Inr[OF info st, of dd] warn show ?thesis by simp
  next
    case (Some tree)
    with scan_torrents_Inr[OF info st, of dd] warn af show ?thesis
      by (simp add: orphaned_scan_walk total_scan_walk sum_list_orphans_of) (simp add: orphans_of_def)
  qed
qed

lemma live_paths_append: "live_paths (xs @ ys) = live_paths xs \<union> live_paths ys"
  by (simp add: live_paths_def)

lemma live_paths_Cons: "live_paths (t # ts) = set (joined_paths t) \<union> live_paths ts"
  by (simp add: live_paths_def)

lemma orphans_of_Un:
  "orphans_of (A \<union> B) g ps = filter (\<lambda>e. fst e \<notin> B) (orphans_of A g ps)"
  by (induction ps) (auto simp: orphans_of_def)

lemma joined_paths_Inl: "files t = Inl e \<Longrightarrow> joined_paths t = []"
  by (simp add: joined_paths_def)

section \<open>The deletion loop\<close>

lemma length_remove_results: "length (remove_results rm es w) = length es"
  by (induction es arbitrary: w) simp_all

lemma delete_files_Cons_ok:
  "rm (fst e) (world st) = (None, w) \<Longrightarrow>
   delete_files rm n (e # rest) st =
     delete_files rm n rest
       (if (deleted_count st + 1) mod 10 = 0
        then print (Deleted_progress (deleted_count st + 1) n)
               (st\<lparr>deleted_count := deleted_count st + 1, deleted_size := deleted_size st + snd e, world := w\<rparr>)
        else st\<lparr>deleted_count := deleted_count st + 1, deleted_size := deleted_size st + snd e, world := w\<rparr>)"
  by (cases e) (simp add: Let_def)

lemma delete_files_Cons_fail:
  "rm (fst e) (world st) = (Some x, w) \<Longrightarrow>
   delete_files rm n (e # rest) st =
     delete_files rm n rest
       (print (Error_deleting (fst e) x) (st\<lparr>failed_count := failed_count st + 1, world := w\<rparr>))"
  by (cases e) simp

lemma delete_files_fields:
  "deleted_count (delete_files rm n es st) =
     deleted_count st + length (filter (\<lambda>r. r = None) (remove_results rm es (world st))) \<and>
   failed_count (delete_files rm n es st) =
     failed_count st + length (filter (\<lambda>r. r \<noteq> None) (remove_results rm es (world st))) \<and>
   deleted_size (delete_files rm n es st) =
     deleted_size st + sum_list (freed es (remove_results rm es (world st))) \<and>
   world (delete_files rm n es st) = foldl (\<lambda>w p. snd (rm p w)) (world st) (map fst es)"
proof (induction es arbitrary: st)
  case Nil
  show ?case by (simp add: freed_def)
next
  case (Cons e es)
  obtain r w where rw: "rm (fst e) (world st) = (r, w)" by (cases "rm (fst e) (world st)")
  show ?case
  proof (cases r)
    case None
    with rw have eq: "rm (fst e) (world st) = (None, w)" by simp
    show ?thesis
      unfolding delete_files_Cons_ok[where rm=rm and e=e and st=st and w=w, OF eq]
      using eq by (simp add: Cons.IH print_def freed_def)
  next
    case (Some x)
    with rw have eq: "rm (fst e) (world st) = (Some x, w)" by simp
    show ?thesis
      unfolding delete_files_Cons_fail[where rm=rm and e=e and st=st and w=w, OF eq]
      using eq by (simp add: Cons.IH print_def freed_def)
  qed
qed

lemma delete_files_errors:
  "set (printed st) \<subseteq> set (printed (delete_files rm n es st)) \<and>
   (\<forall>i < length es. \<forall>x. remove_results rm es (world st) ! i = Some x \<longrightarrow>
      Error_deleting (fst (es ! i)) x \<in> set (printed (delete_files rm n es st)))"
proof (induction es arbitrary: st)
  case Nil
  show ?case by simp
next
  case (Cons e es)
  obtain r w where rw: "rm (fst e) (world st) = (r, w)" by (cases "rm (fst e) (world st)")
  show ?case
  proof (cases r)
    case None
    with rw have eq: "rm (fst e) (world st) = (None, w)" by simp
    let ?st1 = "st\<lparr>deleted_count := deleted_count st + 1, deleted_size := deleted_size st + snd e, world := w\<rparr>"
    let ?st2 = "if (deleted_count st + 1) mod 10 = 0
        then print (Deleted_progress (deleted_count st + 1) n) ?st1 else ?st1"
    have w2: "world ?st2 = w" and p2: "set (printed st) \<subseteq> set (printed ?st2)"
      by (auto simp: print_def)
    from Cons.IH[of ?st2] w2 p2 eq show ?thesis
      unfolding delete_files_Cons_ok[where rm=rm and e=e and st=st and w=w, OF eq]
      by (auto simp: nth_Cons split: nat.splits)
  next
    case (Some x)
    with rw have eq: "rm (fst e) (world st) = (Some x, w)" by simp
    let ?st2 = "print (Error_deleting (fst e) x) (st\<lparr>failed_count := failed_count st + 1, world := w\<rparr>)"
    have w2: "world ?st2 = w" and p2: "set (printed ?st2) = insert (Error_deleting (fst e) x) (set (printed st))"
      by (auto simp: print_def)
    from Cons.IH[of ?st2] w2 p2 eq show ?thesis
      unfolding delete_files_Cons_fail[where rm=rm and e=e and st=st and w=w, OF eq]
      by (auto simp: nth_Cons split: nat.splits)
  qed
qed

lemma length_filter_failed:
  "length (filter (\<lambda>r. r \<noteq> None) rs) = card {i. i < length rs \<and> rs ! i \<noteq> None}"
  by (rule length_filter_conv_card)

lemma length_filter_ok:
  "length (filter (\<lambda>r. r = None) rs) = length rs - card {i. i < length rs \<and> rs ! i \<noteq> None}"
proof -
  have a: "length (filter (\<lambda>r. r = None) rs) + length (filter (\<lambda>r. r \<noteq> None) rs) = length rs"
    by (rule sum_length_filter_compl)
  have b: "length (filter (\<lambda>r. r \<noteq> None) rs) = card {i. i < length rs \<and> rs ! i \<noteq> None}"
    by (rule length_filter_failed)
  from a b show ?thesis by linarith
qed

lemma sum_list_freed:
  assumes "length rs = length es"
  shows "sum_list (freed es rs) = (\<Sum>i \<in> {..<length es} - {i. i < length es \<and> rs ! i \<noteq> None}. snd (es ! i))"
proof -
  have l: "length (freed es rs) = length es" using assms by (simp add: freed_def)
  have n: "\<And>i. i < length es \<Longrightarrow> freed es rs ! i = (if rs ! i = None then snd (es ! i) else 0)"
    using assms by (simp add: freed_def)
  have "sum_list (freed es rs) = (\<Sum>i = 0..<length es. freed es rs ! i)"
    using sum_list_sum_nth[of "freed es rs"] l by simp
  also have "\<dots> = (\<Sum>i \<in> {..<length es}. if rs ! i = None then snd (es ! i) else 0)"
    using n by (intro sum.cong) auto
  also have "\<dots> = (\<Sum>i \<in> {..<length es} - {i. i < length es \<and> rs ! i \<noteq> None}. snd (es ! i))"
    by (intro sum.mono_neutral_cong_right) auto
  finally show ?thesis .
qed

section \<open>Paths of the walk start with the download directory\<close>

lemma prefix_path_join: "\<not> startswith n [sep] \<Longrightarrow> prefix a (path_join a n)"
  by (simp add: path_join_def)

lemma valid_name_relative: "valid_name n \<Longrightarrow> \<not> startswith n [sep]"
  by (cases n) (auto simp: valid_name_def startswith_def)

lemma os_walk_prefix:
  "valid_names tree \<Longrightarrow> w \<in> set (os_walk d tree) \<Longrightarrow>
     prefix d (fst w) \<and> (\<forall>f \<in> set (snd (snd w)). valid_name f)"
proof (induction d tree arbitrary: w rule: os_walk.induct)
  case (1 dir es)
  from "1.prems"(2) consider
      "w = (dir, map fst (filter (\<lambda>ne. is_dir (snd ne)) es), map fst (filter (\<lambda>ne. \<not> is_dir (snd ne)) es))"
    | ne where "ne \<in> set es" "is_dir (snd ne)" "w \<in> set (os_walk (path_join dir (fst ne)) (snd ne))"
    by auto
  then show ?case
  proof cases
    case 1
    with "1.prems"(1) show ?thesis by (auto simp: list_all_iff)
  next
    case 2
    from "1.prems"(1) 2(1) have v: "valid_name (fst ne)" "valid_names (snd ne)"
      by (auto simp: list_all_iff)
    from 2(1,2) have "ne \<in> set (filter (\<lambda>ne. is_dir (snd ne)) es)" by simp
    from "1.IH"[OF this v(2) 2(3)] have
      p: "prefix (path_join dir (fst ne)) (fst w)" and f: "\<forall>f \<in> set (snd (snd w)). valid_name f"
      by simp_all
    have "prefix dir (path_join dir (fst ne))"
      using v(1) by (intro prefix_path_join valid_name_relative)
    then have "prefix dir (fst w)" using p by (rule prefix_order.trans)
    with f show ?thesis by simp
  qed
qed simp_all

lemma walked_paths_prefix:
  assumes "valid_names tree" and "p \<in> set (walked_paths (os_walk d tree))"
  shows "prefix d p"
proof -
  from assms(2) obtain w f where w: "w \<in> set (os_walk d tree)" "f \<in> set (snd (snd w))"
    "p = path_join (fst w) f" by (auto simp: walked_paths_def)
  from os_walk_prefix[OF assms(1) w(1)] w(2) have "prefix d (fst w)" "valid_name f" by auto
  moreover from \<open>valid_name f\<close> have "prefix (fst w) (path_join (fst w) f)"
    by (intro prefix_path_join valid_name_relative)
  ultimately show ?thesis using w(3) by (auto intro: prefix_order.trans)
qed

lemma scan_torrents_found_walked:
  assumes "scan_torrents env dd = Some out" and "result out = Some (found, total_size)"
    and "e \<in> set found"
  shows "\<exists>tree. target env = Some tree \<and> fst e \<in> set (walked_paths (os_walk dd tree))"
proof (cases "torrents_info env")
  case (Inl x)
  with assms show ?thesis by (auto simp: scan_torrents_def)
next
  case (Inr ts)
  with assms(1) obtain st where st: "process_torrents 0 (length ts) ts
      \<lparr>printed = [Scanning_active_torrents], active_files = {}, active_dirs = {}\<rparr> = Some st"
    by (auto simp: scan_torrents_def split: option.splits)
  show ?thesis
  proof (cases "target env")
    case None
    with scan_torrents_Inr[OF Inr st, of dd] assms show ?thesis by auto
  next
    case (Some tree)
    with scan_torrents_Inr[OF Inr st, of dd] assms
    have "found = orphaned_files (scan_walk (active_files st) (getsize env) (os_walk dd tree))"
      by auto
    with assms(3) Some show ?thesis by (auto simp: orphaned_scan_walk)
  qed
qed

lemma main_world_after:
  assumes "main env dd = Some r" and "scan_result r = Some (orphaned, total_size)"
  shows "world_after r = world_before env \<or>
         world_after r = foldl (\<lambda>w p. snd (os_remove env p w)) (world_before env) (map fst orphaned)"
proof -
  from assms have c: "connected env" by (auto simp: main_def split: if_splits)
  with assms(1) obtain out where out: "scan_torrents env dd = Some out"
    by (auto simp: main_def split: option.splits)
  show ?thesis
  proof (cases "result out")
    case None
    with assms c out show ?thesis by (auto simp: main_def)
  next
    case (Some ft)
    obtain found t where ft: "ft = (found, t)" by (cases ft)
    have w: "world (delete_phase env (sort_largest_first found)) =
        foldl (\<lambda>w p. snd (os_remove env p w)) (world_before env) (map fst (sort_largest_first found))"
      using delete_files_fields[of "os_remove env" "length (sort_largest_first found)"
          "sort_largest_first found"] by (simp add: delete_phase_def)
    from assms c out Some ft w show ?thesis
      by (auto simp: main_def Let_def split: if_splits)
  qed
qed

lemma endswith_ensure_trailing_slash: "endswith (ensure_trailing_slash d) [sep]"
  by (simp add: ensure_trailing_slash_def endswith_def)

section \<open>The report file\<close>

lemma replace_from_absent:
  "old \<noteq> [] \<Longrightarrow> \<not> sublist old s \<Longrightarrow> replace_from old [] s = s"
proof (induction s)
  case Nil
  show ?case by simp
next
  case (Cons c cs)
  from Cons.prems(2) have np: "\<not> prefix old (c # cs)" and ns: "\<not> sublist old cs"
    by (auto simp: sublist_Cons_right)
  from Cons.IH[OF Cons.prems(1) ns] np show ?case by simp
qed

lemma replace_from_prefix:
  assumes "old \<noteq> []"
  shows "replace_from old [] (old @ s) = replace_from old [] s"
proof -
  from assms obtain c cs where o: "old = c # cs" by (cases old) auto
  have "replace_from old [] (c # (cs @ s)) = [] @ replace_from old [] (drop (length old) (c # (cs @ s)))"
    using o by (subst replace_from.simps) simp
  then show ?thesis using o by simp
qed

lemma display_path_relative:
  assumes "prefix dd p" and "\<not> sublist dd (drop (length dd) p)"
  shows "display_path dd p = drop (length dd) p"
proof -
  from assms(2) have ne: "dd \<noteq> []" by auto
  from assms(1) obtain rel where p: "p = dd @ rel" by (auto simp: prefix_def)
  with assms(2) have "\<not> sublist dd rel" by simp
  with ne p show ?thesis
    by (simp add: display_path_def str_replace_def replace_from_prefix replace_from_absent)
qed

lemma display_path_not_relative: "display_path ''/dl/'' ''/dl/a/dl/b.txt'' = ''ab.txt''"
  by (simp add: display_path_def str_replace_def)

lemma write_all_fst:
  "snd (write_all wr written ls) = None \<Longrightarrow> fst (write_all wr written ls) = written @ ls"
  by (induction ls arbitrary: written) (auto split: option.splits)

lemma write_all_never_fails:
  "(\<And>w s. wr w s = None) \<Longrightarrow> write_all wr written ls = (written @ ls, None)"
  by (induction ls arbitrary: written) simp_all

lemma write_all_prefix:
  "\<exists>k \<le> length ls. fst (write_all wr written ls) = written @ take k ls"
proof (induction ls arbitrary: written)
  case Nil
  show ?case by simp
next
  case (Cons s ls)
  show ?case
  proof (cases "wr written s")
    case (Some e)
    then show ?thesis by (auto intro: exI[of _ 0])
  next
    case None
    from Cons.IH[of "written @ [s]"] obtain k where
      "k \<le> length ls" "fst (write_all wr (written @ [s]) ls) = (written @ [s]) @ take k ls"
      by blast
    with None show ?thesis by (auto intro!: exI[of _ "Suc k"])
  qed
qed

lemma save_report_written:
  assumes "open_report env = None"
    and "snd (write_all (report_write env) [] (report_lines (format_bytes env) dd orphaned total_size)) = None"
    and "report_close env (report_lines (format_bytes env) dd orphaned total_size) = None"
  shows "save_report env dd orphaned total_size =
           (Some (report_lines (format_bytes env) dd orphaned total_size), Report_saved)"
proof -
  let ?w = "write_all (report_write env) [] (report_lines (format_bytes env) dd orphaned total_size)"
  from write_all_fst[OF assms(2)] have "fst ?w = report_lines (format_bytes env) dd orphaned total_size"
    by simp
  with assms(2) have "?w = (report_lines (format_bytes env) dd orphaned total_size, None)"
    by (cases ?w) simp
  with assms(1,3) show ?thesis by (simp add: save_report_def)
qed

lemma save_report_truncated:
  assumes "open_report env = None"
    and "snd (write_all (report_write env) [] (report_lines (format_bytes env) dd orphaned total_size)) = Some e"
  shows "\<exists>k \<le> length (report_lines (format_bytes env) dd orphaned total_size). \<exists>e'.
           save_report env dd orphaned total_size =
             (Some (take k (report_lines (format_bytes env) dd orphaned total_size)),
              Warning_report_not_saved e')"
proof -
  let ?ls = "report_lines (format_bytes env) dd orphaned total_size"
  from write_all_prefix[of ?ls "report_write env" "[]"] obtain k where
    k: "k \<le> length ?ls" "fst (write_all (report_write env) [] ?ls) = take k ?ls" by auto
  with assms(2) have "write_all (report_write env) [] ?ls = (take k ?ls, Some e)"
    by (cases "write_all (report_write env) [] ?ls") simp
  with assms(1) k(1) show ?thesis by (auto simp: save_report_def split: option.splits)
qed

lemma main_report_after:
  assumes "main env dd = Some r" and "scan_result r = Some (orphaned, total_size)"
  shows "report_after r =
     (if orphaned \<noteq> [] then fst (save_report env dd orphaned total_size) else report_file env)"
    and "orphaned \<noteq> [] \<Longrightarrow> snd (save_report env dd orphaned total_size) \<in> set (printed r)"
proof -
  from assms have c: "connected env" by (auto simp: main_def split: if_splits)
  with assms(1) obtain out where out: "scan_torrents env dd = Some out"
    by (auto simp: main_def split: option.splits)
  have "report_after r =
     (if orphaned \<noteq> [] then fst (save_report env dd orphaned total_size) else report_file env) \<and>
     (orphaned \<noteq> [] \<longrightarrow> snd (save_report env dd orphaned total_size) \<in> set (printed r))"
  proof (cases "result out")
    case None
    with assms c out show ?thesis by (auto simp: main_def)
  next
    case (Some ft)
    obtain found t where ft: "ft = (found, t)" by (cases ft)
    from assms c out Some ft show ?thesis
      by (auto simp: main_def Let_def split: if_splits)
  qed
  then show "report_after r =
     (if orphaned \<noteq> [] then fst (save_report env dd orphaned total_size) else report_file env)"
    and "orphaned \<noteq> [] \<Longrightarrow> snd (save_report env dd orphaned total_size) \<in> set (printed r)"
    by simp_all
qed

lemma main_report_truncated:
  assumes "main env dd = Some r" and "scan_result r = Some (orphaned, total_size)"
    and "orphaned \<noteq> []" and "open_report env = None"
    and "snd (write_all (report_write env) []
                (report_lines (format_bytes env) dd orphaned total_size)) = Some e"
  shows "\<exists>k \<le> length (report_lines (format_bytes env) dd orphaned total_size). \<exists>e'.
           report_after r = Some (take k (report_lines (format_bytes env) dd orphaned total_size)) \<and>
           Warning_report_not_saved e' \<in> set (printed r)"
proof -
  from save_report_truncated[OF assms(4,5)] obtain k e' where
    k: "k \<le> length (report_lines (format_bytes env) dd orphaned total_size)"
    and s: "save_report env dd orphaned total_size =
             (Some (take k (report_lines (format_bytes env) dd orphaned total_size)),
              Warning_report_not_saved e')" by blast
  from main_report_after(1)[OF assms(1,2)] main_report_after(2)[OF assms(1,2,3)] assms(3) s
  have "report_after r = Some (take k (report_lines (format_bytes env) dd orphaned total_size))"
    and "Warning_report_not_saved e' \<in> set (printed r)" by simp_all
  with k show ?thesis by blast
qed

lemma clean_scan:
  "\<exists>out. scan_torrents clean_env ''/dl/'' = Some out \<and> result out = Some ([], 0)"
proof -
  have h1: "torrents_info clean_env = Inr scenario_torrents"
    by (simp add: clean_env_def scenario_run_env_def)
  have h2: "target clean_env = Some (Dir [])" by (simp add: clean_env_def)
  from scan_torrents_walk[OF h1 h2 scenario_parents_stop, of "''/dl/''"] show ?thesis
    by (auto simp: orphans_of_def walked_paths_def)
qed

lemma scenario_line_1:
  "rjust 10 (scenario_format 200) @ '' - '' @ display_path ''/dl/'' ''/dl/other/c.txt'' @ newline
     = ''     200 B - other/c.txt'' @ newline"
  by code_simp

lemma scenario_line_2:
  "rjust 10 (scenario_format 50) @ '' - '' @ display_path ''/dl/'' ''/dl/movie/b.nfo'' @ newline
     = ''      50 B - movie/b.nfo'' @ newline"
  by code_simp

lemma scenario_lines:
  "map (\<lambda>e. rjust 10 (scenario_format (snd e)) @ '' - '' @ display_path ''/dl/'' (fst e) @ newline)
       [(''/dl/other/c.txt'', 200::nat), (''/dl/movie/b.nfo'', 50)]
     = [''     200 B - other/c.txt'' @ newline, ''      50 B - movie/b.nfo'' @ newline]"
  by (simp only: list.map fst_conv snd_conv scenario_line_1 scenario_line_2)

lemma scenario_header: "report_header scenario_format ''/dl/'' [(''/dl/other/c.txt'', 200::nat), (''/dl/movie/b.nfo'', 50)] 250 = 
       [''Orphaned Files Report'' @ newline,
              ''Generated by: qBittorrent Orphaned Files Cleaner'' @ newline,
              ''Download Directory: /dl/'' @ newline,
              ''Total files: 2'' @ newline,
              ''Total size: 250 B'' @ newline,
              replicate 60 CHR ''='' @ newline @ newline]"
  by code_simp

section \<open>The claims\<close>

text \<open>
  C3. With no torrents the set of active files is empty, and the scan returns every file
  of the walk as an orphan, with the size recorded for it, in the order of the walk.
\<close>

theorem no_torrents_every_file_orphaned:
  assumes "torrents_info env = Inr []" and "target env = Some tree"
  shows "map_option active_files
           (process_torrents 0 (length ([] :: torrent list)) []
              \<lparr>printed = [Scanning_active_torrents], active_files = {}, active_dirs = {}\<rparr>) = Some {} \<and>
         (\<exists>out. scan_torrents env dd = Some out \<and>
            result out = Some (map (\<lambda>p. (p, recorded_size (getsize env) p)) (walked_paths (os_walk dd tree)),
                               sum_list (map (recorded_size (getsize env)) (walked_paths (os_walk dd tree)))))"
proof -
  have e: "live_paths [] = {}" by (simp add: live_paths_def)
  from scan_torrents_walk[OF assms, of dd] e show ?thesis
    by (auto simp: orphans_of_def comp_def)
qed

theorem no_torrents_every_file_orphaned_witness:
  "torrents_info (scenario_env\<lparr>torrents_info := Inr []\<rparr>) = Inr [] \<and>
   target (scenario_env\<lparr>torrents_info := Inr []\<rparr>) = Some scenario_tree \<and>
   (\<exists>out. scan_torrents (scenario_env\<lparr>torrents_info := Inr []\<rparr>) ''/dl/'' = Some out \<and>
      result out = Some ([(''/dl/movie/a.mkv'', 1000), (''/dl/movie/b.nfo'', 50), (''/dl/other/c.txt'', 200)], 1250))"
proof -
  have h1: "torrents_info (scenario_env\<lparr>torrents_info := Inr []\<rparr>) = Inr []" by simp
  have h2: "target (scenario_env\<lparr>torrents_info := Inr []\<rparr>) = Some scenario_tree"
    by (simp add: scenario_env_def)
  have g: "getsize (scenario_env\<lparr>torrents_info := Inr []\<rparr>) = scenario_getsize"
    by (simp add: scenario_env_def)
  from no_torrents_every_file_orphaned[OF h1 h2, of "''/dl/''"] h1 h2 show ?thesis
    by (simp add: g scenario_walked recorded_size_def scenario_getsize_def)
qed

text \<open>
  C4. When the scan returns, a walked file that is not active and whose size cannot be
  read is in the list with size 0, and a warning naming it has been printed.
\<close>

theorem unreadable_size_still_recorded:
  assumes "torrents_info env = Inr ts" and "target env = Some tree"
    and "\<forall>t \<in> set ts. parents_stop t"
    and "p \<in> set (walked_paths (os_walk dd tree))" and "p \<notin> live_paths ts"
    and "getsize env p = Inl e"
  shows "\<exists>out found total_size. scan_torrents env dd = Some out \<and> result out = Some (found, total_size) \<and>
           (p, 0) \<in> set found \<and> Warning_cannot_access p e \<in> set (printed out)"
proof -
  from scan_torrents_walk[OF assms(1,2,3), of dd] obtain out where
    out: "scan_torrents env dd = Some out"
    "result out = Some (orphans_of (live_paths ts) (getsize env) (walked_paths (os_walk dd tree)),
        sum_list (map snd (orphans_of (live_paths ts) (getsize env) (walked_paths (os_walk dd tree)))))"
    and warn: "\<forall>p e. p \<in> set (walked_paths (os_walk dd tree)) \<longrightarrow> p \<notin> live_paths ts \<longrightarrow>
        getsize env p = Inl e \<longrightarrow> Warning_cannot_access p e \<in> set (printed out)"
    by blast
  have "recorded_size (getsize env) p = 0" using assms(6) by (simp add: recorded_size_def)
  with assms(4,5) have "(p, 0) \<in> set (orphans_of (live_paths ts) (getsize env) (walked_paths (os_walk dd tree)))"
    by (force simp: orphans_of_def)
  moreover from warn assms(4,5,6) have "Warning_cannot_access p e \<in> set (printed out)" by blast
  ultimately show ?thesis using out by blast
qed

theorem unreadable_size_still_recorded_witness:
  "torrents_info unreadable_env = Inr scenario_torrents \<and>
   target unreadable_env = Some scenario_tree \<and>
   ''/dl/movie/b.nfo'' \<in> set (walked_paths (os_walk ''/dl/'' scenario_tree)) \<and>
   ''/dl/movie/b.nfo'' \<notin> live_paths scenario_torrents \<and>
   getsize unreadable_env ''/dl/movie/b.nfo'' = Inl ''Permission denied'' \<and>
   (\<exists>out found total_size. scan_torrents unreadable_env ''/dl/'' = Some out \<and>
      result out = Some (found, total_size) \<and> (''/dl/movie/b.nfo'', 0) \<in> set found \<and>
      Warning_cannot_access ''/dl/movie/b.nfo'' ''Permission denied'' \<in> set (printed out))"
proof -
  have h1: "torrents_info unreadable_env = Inr scenario_torrents"
    by (simp add: unreadable_env_def scenario_env_def)
  have h2: "target unreadable_env = Some scenario_tree"
    by (simp add: unreadable_env_def scenario_env_def)
  have h4: "''/dl/movie/b.nfo'' \<in> set (walked_paths (os_walk ''/dl/'' scenario_tree))"
    by (simp add: scenario_walked)
  have h5: "''/dl/movie/b.nfo'' \<notin> live_paths scenario_torrents"
    by (simp add: scenario_live)
  have h6: "getsize unreadable_env ''/dl/movie/b.nfo'' = Inl ''Permission denied''"
    by (simp add: unreadable_env_def)
  from unreadable_size_still_recorded[OF h1 h2 scenario_parents_stop h4 h5 h6] h1 h2 h4 h5 h6
  show ?thesis by blast
qed

text \<open>
  C5. The list a run of \<open>main\<close> works on after sorting is in descending order of size,
  and the total is the sum of the sizes recorded in it.
\<close>

theorem scan_result_sorted_and_totalled:
  assumes "main env dd = Some r" and "scan_result r = Some (orphaned, total_size)"
  shows "sorted_wrt (\<lambda>a b. b \<le> a) (map snd orphaned) \<and> total_size = sum_list (map snd orphaned)"
proof -
  from main_scan_result[OF assms] obtain out found where
    out: "scan_torrents env dd = Some out" "result out = Some (found, total_size)"
    and o: "orphaned = sort_largest_first found" by blast
  from scan_torrents_total[OF out] have "total_size = sum_list (map snd found)" .
  with o show ?thesis by (simp add: sorted_sort_largest_first sum_list_sort_largest_first)
qed

theorem scan_result_sorted_and_totalled_witness:
  "\<exists>r. main scenario_run_env ''/dl/'' = Some r \<and>
     scan_result r = Some ([(''/dl/other/c.txt'', 200), (''/dl/movie/b.nfo'', 50)], 250) \<and>
     sorted_wrt (\<lambda>a b. b \<le> a) (map snd [(''/dl/other/c.txt'', 200::nat), (''/dl/movie/b.nfo'', 50)]) \<and>
     (250::nat) = sum_list (map snd [(''/dl/other/c.txt'', 200::nat), (''/dl/movie/b.nfo'', 50)])"
proof -
  from scenario_run_scan obtain out where
    out: "scan_torrents scenario_run_env ''/dl/'' = Some out"
    "result out = Some ([(''/dl/movie/b.nfo'', 50), (''/dl/other/c.txt'', 200)], 250)" by blast
  have c: "connected scenario_run_env" by (simp add: scenario_run_env_def)
  from main_returns[OF c out] obtain r where
    r: "main scenario_run_env ''/dl/'' = Some r"
    "scan_result r = Some ([(''/dl/other/c.txt'', 200), (''/dl/movie/b.nfo'', 50)], 250)"
    by (auto simp: scenario_sorted)
  from scan_result_sorted_and_totalled[OF r] r show ?thesis by blast
qed

text \<open>
  C2. The claim asks for a fatal error when the download directory does not exist. The
  code prints the error and returns the empty list and a total of 0, as a scan that found
  no orphan does, where its other error paths return \<^verbatim>\<open>(None, None)\<close>; so \<open>main\<close> goes
  on, reports that no orphaned files were found and ends with exit status 0.
\<close>

theorem missing_directory_run_succeeds:
  assumes "connected env" and "torrents_info env = Inr ts" and "\<forall>t \<in> set ts. parents_stop t"
    and "target env = None"
  shows "\<exists>out r. scan_torrents env dd = Some out \<and> result out = Some ([], 0) \<and>
           main env dd = Some r \<and> exit_status r = 0 \<and> scan_result r = Some ([], 0) \<and>
           Error_directory_missing dd \<in> set (printed r) \<and> No_orphans \<in> set (printed r)"
proof -
  from scan_torrents_missing[OF assms(2,4,3), of dd] obtain out where
    out: "scan_torrents env dd = Some out" "result out = Some ([], 0)"
    and e: "Error_directory_missing dd \<in> set (printed out)" by blast
  from main_no_orphans[OF assms(1) out] e out show ?thesis by simp
qed

theorem missing_directory_run_succeeds_witness:
  "connected missing_dir_env \<and> torrents_info missing_dir_env = Inr scenario_torrents \<and>
   target missing_dir_env = None \<and>
   (\<exists>out r. scan_torrents missing_dir_env ''/dl/'' = Some out \<and> result out = Some ([], 0) \<and>
      main missing_dir_env ''/dl/'' = Some r \<and> exit_status r = 0 \<and> scan_result r = Some ([], 0) \<and>
      Error_directory_missing ''/dl/'' \<in> set (printed r) \<and> No_orphans \<in> set (printed r))"
proof -
  have h1: "connected missing_dir_env" by (simp add: missing_dir_env_def scenario_run_env_def)
  have h2: "torrents_info missing_dir_env = Inr scenario_torrents"
    by (simp add: missing_dir_env_def scenario_run_env_def)
  have h4: "target missing_dir_env = None" by (simp add: missing_dir_env_def)
  from missing_directory_run_succeeds[OF h1 h2 scenario_parents_stop h4, of "''/dl/''"] h1 h2 h4
  show ?thesis by blast
qed

text \<open>
  C1, as the specification states it, fails: paths are compared as the strings
  \<^verbatim>\<open>os.path.join\<close> builds, and nothing is normalised. With the save path \<open>/dl/./movie\<close>
  the file \<open>/dl/movie/a.mkv\<close> of the torrent is reported as an orphan, although both
  paths have the same canonical form.
\<close>

theorem same_canonical_path_still_orphan:
  "normpath (path_join ''/dl/./movie'' ''a.mkv'') = normpath ''/dl/movie/a.mkv'' \<and>
   map_option result (scan_torrents dot_env ''/dl/'') =
     Some (Some ([(''/dl/movie/a.mkv'', 1000), (''/dl/movie/b.nfo'', 50),
                  (''/dl/other/c.txt'', 200)], 1250))"
  using normpath_dot dot_scan by simp

text \<open>
  C1, amended. When \<open>torrents_info\<close> answers, the download directory exists and the loop
  over the parent directories stops for every torrent, the scan returns, every entry of
  its list is a path of the walk, and a path of the walk is in the list exactly when it is
  not, as a string, one of the paths joined from the save path and a file name of a
  torrent whose file list could be read.
\<close>

theorem orphan_iff_not_joined_text:
  assumes "torrents_info env = Inr ts" and "target env = Some tree"
    and "\<forall>t \<in> set ts. parents_stop t"
  shows "\<exists>out found total_size. scan_torrents env dd = Some out \<and>
           result out = Some (found, total_size) \<and>
           fst ` set found \<subseteq> set (walked_paths (os_walk dd tree)) \<and>
           (\<forall>p \<in> set (walked_paths (os_walk dd tree)). (p \<in> fst ` set found) = (p \<notin> live_paths ts))"
proof -
  let ?found = "orphans_of (live_paths ts) (getsize env) (walked_paths (os_walk dd tree))"
  from scan_torrents_walk[OF assms, of dd] obtain out where
    out: "scan_torrents env dd = Some out"
    "result out = Some (?found, sum_list (map snd ?found))" by blast
  have f: "fst ` set ?found = {p \<in> set (walked_paths (os_walk dd tree)). p \<notin> live_paths ts}"
    by (auto simp: orphans_of_def image_iff)
  from out f show ?thesis by auto
qed

theorem orphan_iff_not_joined_text_witness:
  "torrents_info scenario_env = Inr scenario_torrents \<and> target scenario_env = Some scenario_tree \<and>
   (\<exists>out found total_size. scan_torrents scenario_env ''/dl/'' = Some out \<and>
      result out = Some (found, total_size) \<and>
      fst ` set found \<subseteq> {''/dl/movie/a.mkv'', ''/dl/movie/b.nfo'', ''/dl/other/c.txt''} \<and>
      ''/dl/movie/a.mkv'' \<notin> fst ` set found \<and> ''/dl/movie/b.nfo'' \<in> fst ` set found \<and>
      ''/dl/other/c.txt'' \<in> fst ` set found)"
proof -
  have h1: "torrents_info scenario_env = Inr scenario_torrents" by (simp add: scenario_env_def)
  have h2: "target scenario_env = Some scenario_tree" by (simp add: scenario_env_def)
  from orphan_iff_not_joined_text[OF h1 h2 scenario_parents_stop, of "''/dl/''"] h1 h2
  show ?thesis by (simp add: scenario_walked scenario_live)
qed

text \<open>
  C8. Adding a torrent that covers an entry of the list removes the entry from the list of
  the next scan only if the next scan returns, and it need not. With no torrents the scan
  of the scenario lists \<open>/dl/movie/a.mkv\<close>. The torrent with save path \<open>/dl/movie/\<close> and
  file \<open>a.mkv\<close> covers that entry; once it is added the scan never returns, because the
  loop over the parent directories goes from \<open>/dl/movie\<close> up to \<open>/\<close> without meeting the
  save path, and \<open>dirname\<close> of \<open>/\<close> is \<open>/\<close>.
\<close>

theorem covering_torrent_stops_next_scan:
  "map_option result (scan_torrents (scenario_env\<lparr>torrents_info := Inr []\<rparr>) ''/dl/'') =
     Some (Some ([(''/dl/movie/a.mkv'', 1000), (''/dl/movie/b.nfo'', 50),
                  (''/dl/other/c.txt'', 200)], 1250)) \<and>
   joined_paths (hd slash_torrents) = [''/dl/movie/a.mkv''] \<and>
   torrents_info slash_env = Inr ([] @ hd slash_torrents # []) \<and>
   target slash_env = target (scenario_env\<lparr>torrents_info := Inr []\<rparr>) \<and>
   scan_torrents slash_env ''/dl/'' = None"
proof -
  have h1: "torrents_info (scenario_env\<lparr>torrents_info := Inr []\<rparr>) = Inr []" by simp
  have h2: "target (scenario_env\<lparr>torrents_info := Inr []\<rparr>) = Some scenario_tree"
    by (simp add: scenario_env_def)
  have g: "getsize (scenario_env\<lparr>torrents_info := Inr []\<rparr>) = scenario_getsize"
    by (simp add: scenario_env_def)
  have e: "live_paths [] = {}" by (simp add: live_paths_def)
  have s: "\<forall>t \<in> set ([] :: torrent list). parents_stop t" by simp
  from scan_torrents_walk[OF h1 h2 s, of "''/dl/''"]
  have a: "map_option result (scan_torrents (scenario_env\<lparr>torrents_info := Inr []\<rparr>) ''/dl/'') =
     Some (Some ([(''/dl/movie/a.mkv'', 1000), (''/dl/movie/b.nfo'', 50),
                  (''/dl/other/c.txt'', 200)], 1250))"
    by (auto simp: g e scenario_walked orphans_of_def recorded_size_def scenario_getsize_def)
  have b: "joined_paths (hd slash_torrents) = [''/dl/movie/a.mkv'']"
    by (simp add: slash_torrents_def joined_paths_def path_eval)
  have c: "torrents_info slash_env = Inr ([] @ hd slash_torrents # [])"
    by (simp add: slash_env_def slash_torrents_def)
  have d: "target slash_env = target (scenario_env\<lparr>torrents_info := Inr []\<rparr>)"
    by (simp add: slash_env_def)
  from a b c d slash_scan_never_returns show ?thesis by blast
qed

text \<open>
  When the loop over the parent directories stops for the added torrent as well, the list
  of the next scan is the list before without the entries the new torrent covers, in the
  same order, and the total is again the sum of the sizes.
\<close>

lemma added_torrent_removes_covered_orphans:
  assumes "torrents_info env = Inr (ts1 @ ts2)" and "target env = Some tree"
    and "\<forall>u \<in> set (ts1 @ t # ts2). parents_stop u"
  shows "\<exists>out found total_size out' found' total_size'.
           scan_torrents env dd = Some out \<and> result out = Some (found, total_size) \<and>
           scan_torrents (env\<lparr>torrents_info := Inr (ts1 @ t # ts2)\<rparr>) dd = Some out' \<and>
           result out' = Some (found', total_size') \<and>
           found' = filter (\<lambda>e. fst e \<notin> set (joined_paths t)) found \<and>
           total_size' = sum_list (map snd found')"
proof -
  let ?ps = "walked_paths (os_walk dd tree)"
  let ?env' = "env\<lparr>torrents_info := Inr (ts1 @ t # ts2)\<rparr>"
  from assms(3) have stop: "\<forall>u \<in> set (ts1 @ ts2). parents_stop u" by auto
  from scan_torrents_walk[OF assms(1,2) stop, of dd] obtain out where
    out: "scan_torrents env dd = Some out"
    "result out = Some (orphans_of (live_paths (ts1 @ ts2)) (getsize env) ?ps,
        sum_list (map snd (orphans_of (live_paths (ts1 @ ts2)) (getsize env) ?ps)))" by blast
  have i': "torrents_info ?env' = Inr (ts1 @ t # ts2)" and t': "target ?env' = Some tree"
    and g': "getsize ?env' = getsize env" using assms(2) by simp_all
  from scan_torrents_walk[OF i' t' assms(3), of dd] obtain out' where
    out': "scan_torrents ?env' dd = Some out'"
    "result out' = Some (orphans_of (live_paths (ts1 @ t # ts2)) (getsize env) ?ps,
        sum_list (map snd (orphans_of (live_paths (ts1 @ t # ts2)) (getsize env) ?ps)))"
    unfolding g' by blast
  have l: "live_paths (ts1 @ t # ts2) = live_paths (ts1 @ ts2) \<union> set (joined_paths t)"
    by (auto simp: live_paths_append live_paths_Cons)
  have "orphans_of (live_paths (ts1 @ t # ts2)) (getsize env) ?ps =
        filter (\<lambda>e. fst e \<notin> set (joined_paths t)) (orphans_of (live_paths (ts1 @ ts2)) (getsize env) ?ps)"
    unfolding l by (rule orphans_of_Un)
  with out out' show ?thesis by simp
qed

text \<open>
  C6. For every sequence of torrents and every torrent of it whose file list cannot be
  read: the loop over the torrents goes through the torrents before it, prints the warning
  with the torrent's name and the error, changes nothing else, and goes on with the
  torrents after it; whenever the loop returns, the set of active files holds exactly the
  paths joined from the save paths and file names of the other torrents. The scan
  returns exactly when the loops over the parent directories of the other torrents stop:
  the failure is never what keeps it from returning. When it returns, the warning has been
  printed and the orphans are the walked paths that none of the other torrents joins.
\<close>

theorem failed_file_list_is_skipped:
  assumes "torrents_info env = Inr (ts1 @ t # ts2)" and "files t = Inl e"
  shows "(\<forall>i n st. process_torrents i n (ts1 @ t # ts2) st =
            (case process_torrents i n ts1 st of
               None \<Rightarrow> None
             | Some st1 \<Rightarrow>
                 process_torrents (i + length ts1 + 1) n ts2
                   (st1\<lparr>printed := printed st1 @ [Processing_torrent (i + length ts1 + 1) n,
                                                  Warning_torrent_files (name t) e]\<rparr>))) \<and>
         (\<forall>i n st st'. process_torrents i n (ts1 @ t # ts2) st = Some st' \<longrightarrow>
            active_files st' = active_files st \<union> live_paths (ts1 @ ts2)) \<and>
         ((scan_torrents env dd = None) = (\<not> (\<forall>u \<in> set (ts1 @ ts2). parents_stop u))) \<and>
         (\<forall>out. scan_torrents env dd = Some out \<longrightarrow>
            Warning_torrent_files (name t) e \<in> set (printed out) \<and>
            result out =
              Some (case target env of
                      None \<Rightarrow> ([], 0)
                    | Some tree \<Rightarrow>
                        (orphans_of (live_paths (ts1 @ ts2)) (getsize env) (walked_paths (os_walk dd tree)),
                         sum_list (map snd (orphans_of (live_paths (ts1 @ ts2)) (getsize env)
                                              (walked_paths (os_walk dd tree)))))))"
proof -
  have pt: "parents_stop t" using assms(2) by (simp add: parents_stop_def joined_paths_Inl)
  have stop_iff: "(\<forall>u \<in> set (ts1 @ t # ts2). parents_stop u) = (\<forall>u \<in> set (ts1 @ ts2). parents_stop u)"
    using pt by auto
  have l: "live_paths (ts1 @ t # ts2) = live_paths (ts1 @ ts2)"
    using assms(2) by (simp add: live_paths_append live_paths_Cons joined_paths_Inl)
  have A: "process_torrents i n (ts1 @ t # ts2) st =
            (case process_torrents i n ts1 st of
               None \<Rightarrow> None
             | Some st1 \<Rightarrow>
                 process_torrents (i + length ts1 + 1) n ts2
                   (st1\<lparr>printed := printed st1 @ [Processing_torrent (i + length ts1 + 1) n,
                                                  Warning_torrent_files (name t) e]\<rparr>))" for i n st
  proof (cases "process_torrents i n ts1 st")
    case None
    then show ?thesis by (simp add: process_torrents_append)
  next
    case (Some st1)
    have "process_torrents (i + length ts1) n (t # ts2) st1 =
          process_torrents (i + length ts1 + 1) n ts2
            (st1\<lparr>printed := printed st1 @ [Processing_torrent (i + length ts1 + 1) n,
                                           Warning_torrent_files (name t) e]\<rparr>)"
      unfolding process_torrents_Cons_Inl[OF assms(2)] by (simp add: print_def)
    with Some show ?thesis by (simp add: process_torrents_append)
  qed
  have B: "active_files st' = active_files st \<union> live_paths (ts1 @ ts2)"
    if "process_torrents i n (ts1 @ t # ts2) st = Some st'" for i n st st'
    using process_torrents_Some[OF that] l by simp
  have C: "(scan_torrents env dd = None) = (\<not> (\<forall>u \<in> set (ts1 @ ts2). parents_stop u))"
    using scan_torrents_None_iff[OF assms(1), of dd] pt by auto
  have D: "Warning_torrent_files (name t) e \<in> set (printed out) \<and>
            result out =
              Some (case target env of
                      None \<Rightarrow> ([], 0)
                    | Some tree \<Rightarrow>
                        (orphans_of (live_paths (ts1 @ ts2)) (getsize env) (walked_paths (os_walk dd tree)),
                         sum_list (map snd (orphans_of (live_paths (ts1 @ ts2)) (getsize env)
                                              (walked_paths (os_walk dd tree))))))"
    if s: "scan_torrents env dd = Some out" for out
  proof -
    from s C have "\<forall>u \<in> set (ts1 @ ts2). parents_stop u" by auto
    with stop_iff have stop: "\<forall>u \<in> set (ts1 @ t # ts2). parents_stop u" by simp
    from scan_torrents_result[OF assms(1) stop, of dd, unfolded l] obtain out' where
      o: "scan_torrents env dd = Some out'"
      "result out' =
              Some (case target env of
                      None \<Rightarrow> ([], 0)
                    | Some tree \<Rightarrow>
                        (orphans_of (live_paths (ts1 @ ts2)) (getsize env) (walked_paths (os_walk dd tree)),
                         sum_list (map snd (orphans_of (live_paths (ts1 @ ts2)) (getsize env)
                                              (walked_paths (os_walk dd tree))))))"
      and w: "\<forall>u \<in> set (ts1 @ t # ts2). \<forall>e. files u = Inl e \<longrightarrow>
                Warning_torrent_files (name u) e \<in> set (printed out')"
      by blast
    from o(1) s have "out' = out" by simp
    moreover from w assms(2) have "Warning_torrent_files (name t) e \<in> set (printed out')" by auto
    ultimately show ?thesis using o(2) by simp
  qed
  from A B C D show ?thesis by blast
qed

theorem failed_file_list_is_skipped_witness:
  "torrents_info failing_env = Inr ([] @ failing_torrent # scenario_torrents) \<and>
   files failing_torrent = Inl ''HTTP 500'' \<and>
   (\<exists>out. scan_torrents failing_env ''/dl/'' = Some out \<and>
      Warning_torrent_files ''broken'' ''HTTP 500'' \<in> set (printed out) \<and>
      result out = Some ([(''/dl/movie/b.nfo'', 50), (''/dl/other/c.txt'', 200)], 250))"
proof -
  have h1: "torrents_info failing_env = Inr ([] @ failing_torrent # scenario_torrents)"
    by (simp add: failing_env_def)
  have h2: "files failing_torrent = Inl ''HTTP 500''" by (simp add: failing_torrent_def)
  have n: "name failing_torrent = ''broken''" by (simp add: failing_torrent_def)
  have tg: "target failing_env = Some scenario_tree" by (simp add: failing_env_def scenario_env_def)
  have g: "getsize failing_env = scenario_getsize" by (simp add: failing_env_def scenario_env_def)
  have v: "orphans_of (live_paths scenario_torrents) scenario_getsize
             (walked_paths (os_walk ''/dl/'' scenario_tree)) =
           [(''/dl/movie/b.nfo'', 50), (''/dl/other/c.txt'', 200)]"
    by (simp add: scenario_walked scenario_live orphans_of_def recorded_size_def scenario_getsize_def)
  note th = failed_file_list_is_skipped[OF h1 h2, of "''/dl/''"]
  from th scenario_parents_stop have "scan_torrents failing_env ''/dl/'' \<noteq> None" by simp
  then obtain out where out: "scan_torrents failing_env ''/dl/'' = Some out" by blast
  with th have "Warning_torrent_files (name failing_torrent) ''HTTP 500'' \<in> set (printed out)"
    and "result out =
          Some (case target failing_env of
                  None \<Rightarrow> ([], 0)
                | Some tree \<Rightarrow>
                    (orphans_of (live_paths ([] @ scenario_torrents)) (getsize failing_env)
                       (walked_paths (os_walk ''/dl/'' tree)),
                     sum_list (map snd (orphans_of (live_paths ([] @ scenario_torrents)) (getsize failing_env)
                                          (walked_paths (os_walk ''/dl/'' tree))))))"
    by blast+
  then have "Warning_torrent_files ''broken'' ''HTTP 500'' \<in> set (printed out)"
    and "result out = Some ([(''/dl/movie/b.nfo'', 50), (''/dl/other/c.txt'', 200)], 250)"
    unfolding n tg g by (simp_all add: v)
  with out h1 h2 show ?thesis by blast
qed

text \<open>
  C7. The deletion loop calls \<^verbatim>\<open>os.remove\<close> once for every entry, in order, whatever
  the earlier calls answered; with \<open>F\<close> the positions of the entries whose deletion
  fails, it counts \<open>N - |F|\<close> deleted files and \<open>|F|\<close> failures, and the bytes freed are
  the sizes of the entries outside \<open>F\<close>.
\<close>

theorem deletion_counts_successes_and_failures:
  assumes "rs = remove_results (os_remove env) es (world_before env)"
    and "F = {i. i < length es \<and> rs ! i \<noteq> None}"
  shows "length rs = length es \<and>
         world (delete_phase env es) =
           foldl (\<lambda>w p. snd (os_remove env p w)) (world_before env) (map fst es) \<and>
         deleted_count (delete_phase env es) = length es - card F \<and>
         failed_count (delete_phase env es) = card F \<and>
         deleted_size (delete_phase env es) = (\<Sum>i \<in> {..<length es} - F. snd (es ! i))"
proof -
  have l: "length rs = length es" using assms(1) by (simp add: length_remove_results)
  let ?st0 = "\<lparr>printed = [Deleting_files], deleted_count = 0, deleted_size = 0, failed_count = 0,
        world = world_before env\<rparr>"
  have w0: "world ?st0 = world_before env" by simp
  from delete_files_fields[of "os_remove env" "length es" es ?st0] assms(1)
  have f: "deleted_count (delete_phase env es) = length (filter (\<lambda>r. r = None) rs)"
    "failed_count (delete_phase env es) = length (filter (\<lambda>r. r \<noteq> None) rs)"
    "deleted_size (delete_phase env es) = sum_list (freed es rs)"
    "world (delete_phase env es) = foldl (\<lambda>w p. snd (os_remove env p w)) (world_before env) (map fst es)"
    by (simp_all add: delete_phase_def)
  have c: "length (filter (\<lambda>r. r = None) rs) = length es - card F"
    using length_filter_ok[of rs] l assms(2) by simp
  have d: "length (filter (\<lambda>r. r \<noteq> None) rs) = card F"
    using length_filter_failed[of rs] l assms(2) by simp
  have e: "sum_list (freed es rs) = (\<Sum>i \<in> {..<length es} - F. snd (es ! i))"
    using sum_list_freed[OF l] assms(2) by simp
  from f l c d e show ?thesis by simp
qed


theorem deletion_counts_successes_and_failures_witness:
  "remove_results (os_remove partial_delete_env)
     [(''/dl/other/c.txt'', 200), (''/dl/movie/b.nfo'', 50)] (world_before partial_delete_env) =
     [Some ''No such file or directory'', None] \<and>
   {i. i < length [(''/dl/other/c.txt'', 200::nat), (''/dl/movie/b.nfo'', 50)] \<and>
       [Some ''No such file or directory'', None] ! i \<noteq> None} = {0} \<and>
   deleted_count (delete_phase partial_delete_env [(''/dl/other/c.txt'', 200), (''/dl/movie/b.nfo'', 50)]) = 1 \<and>
   failed_count (delete_phase partial_delete_env [(''/dl/other/c.txt'', 200), (''/dl/movie/b.nfo'', 50)]) = 1 \<and>
   deleted_size (delete_phase partial_delete_env [(''/dl/other/c.txt'', 200), (''/dl/movie/b.nfo'', 50)]) = 50 \<and>
   world (delete_phase partial_delete_env [(''/dl/other/c.txt'', 200), (''/dl/movie/b.nfo'', 50)]) =
     {''/dl/movie/a.mkv''}"
proof -
  let ?es = "[(''/dl/other/c.txt'', 200::nat), (''/dl/movie/b.nfo'', 50)]"
  let ?rs = "[Some ''No such file or directory'', None]"
  have rm: "os_remove partial_delete_env = remove_existing"
    and w: "world_before partial_delete_env = {''/dl/movie/a.mkv'', ''/dl/movie/b.nfo''}"
    by (simp_all add: partial_delete_env_def scenario_run_env_def)
  have h1: "remove_results (os_remove partial_delete_env) ?es (world_before partial_delete_env) = ?rs"
    by (simp add: rm w remove_existing_def)
  have "(i < length ?es \<and> ?rs ! i \<noteq> None) = (i = 0)" for i
  proof (cases i)
    case 0
    then show ?thesis by simp
  next
    case (Suc j)
    then show ?thesis by (cases j) simp_all
  qed
  then have h2: "{i. i < length ?es \<and> ?rs ! i \<noteq> None} = {0}" by simp
  have s: "{..<length ?es} - {0} = {1}" by auto
  have f: "foldl (\<lambda>w p. snd (remove_existing p w)) {''/dl/movie/a.mkv'', ''/dl/movie/b.nfo''}
      (map fst ?es) = {''/dl/movie/a.mkv''}"
    by (auto simp: remove_existing_def)
  from deletion_counts_successes_and_failures[OF h1[symmetric] h2[symmetric]]
  have "world (delete_phase partial_delete_env ?es) = {''/dl/movie/a.mkv''}"
    and "deleted_count (delete_phase partial_delete_env ?es) = 1"
    and "failed_count (delete_phase partial_delete_env ?es) = 1"
    and "deleted_size (delete_phase partial_delete_env ?es) = 50"
    unfolding s rm w f by simp_all
  with h1 h2 show ?thesis by blast
qed

text \<open>
  C10. The download directory \<open>main\<close> works with ends with a separator, every path of
  the list \<open>main\<close> reports starts with it, and the world after the run is the one before
  it or the result of calling \<^verbatim>\<open>os.remove\<close> on the paths of that list, in order, and on
  nothing else.
\<close>

theorem orphans_and_deletions_under_download_dir:
  assumes "main env (ensure_trailing_slash d) = Some r"
    and "scan_result r = Some (orphaned, total_size)"
    and "pred_option valid_names (target env)"
  shows "endswith (ensure_trailing_slash d) [sep] \<and>
         list_all (\<lambda>e. prefix (ensure_trailing_slash d) (fst e)) orphaned \<and>
         (world_after r = world_before env \<or>
          world_after r = foldl (\<lambda>w p. snd (os_remove env p w)) (world_before env) (map fst orphaned))"
proof -
  let ?dd = "ensure_trailing_slash d"
  from main_scan_result[OF assms(1,2)] obtain out found where
    out: "scan_torrents env ?dd = Some out" "result out = Some (found, total_size)"
    and o: "orphaned = sort_largest_first found" by blast
  have "prefix ?dd (fst e)" if "e \<in> set orphaned" for e
  proof -
    from that o have "e \<in> set found" by (simp add: set_sort_largest_first)
    from scan_torrents_found_walked[OF out this] obtain tree where
      t: "target env = Some tree" "fst e \<in> set (walked_paths (os_walk ?dd tree))" by blast
    from assms(3) t(1) have "valid_names tree" by simp
    from walked_paths_prefix[OF this t(2)] show ?thesis .
  qed
  then have "list_all (\<lambda>e. prefix ?dd (fst e)) orphaned" by (simp add: list_all_iff)
  with main_world_after[OF assms(1,2)] endswith_ensure_trailing_slash show ?thesis by blast
qed


theorem orphans_and_deletions_under_download_dir_witness:
  "pred_option valid_names (target scenario_run_env) \<and>
   (\<exists>r. main scenario_run_env (ensure_trailing_slash ''/dl'') = Some r \<and>
      scan_result r = Some ([(''/dl/other/c.txt'', 200), (''/dl/movie/b.nfo'', 50)], 250) \<and>
      endswith (ensure_trailing_slash ''/dl'') [sep] \<and>
      list_all (\<lambda>e. prefix (ensure_trailing_slash ''/dl'') (fst e))
        [(''/dl/other/c.txt'', 200::nat), (''/dl/movie/b.nfo'', 50)] \<and>
      (world_after r = world_before scenario_run_env \<or>
       world_after r =
         foldl (\<lambda>w p. snd (os_remove scenario_run_env p w)) (world_before scenario_run_env)
           (map fst [(''/dl/other/c.txt'', 200::nat), (''/dl/movie/b.nfo'', 50)])))"
proof -
  have d: "ensure_trailing_slash ''/dl'' = ''/dl/''"
    by (simp add: ensure_trailing_slash_def path_eval)
  have v: "pred_option valid_names (target scenario_run_env)"
    by (simp add: scenario_run_env_def scenario_tree_def valid_name_def sep_def)
  from scenario_run_scan obtain out where
    out: "scan_torrents scenario_run_env ''/dl/'' = Some out"
    "result out = Some ([(''/dl/movie/b.nfo'', 50), (''/dl/other/c.txt'', 200)], 250)" by blast
  have c: "connected scenario_run_env" by (simp add: scenario_run_env_def)
  from main_returns[OF c out] obtain r where
    r: "main scenario_run_env (ensure_trailing_slash ''/dl'') = Some r"
    "scan_result r = Some ([(''/dl/other/c.txt'', 200), (''/dl/movie/b.nfo'', 50)], 250)"
    by (auto simp: scenario_sorted d)
  from orphans_and_deletions_under_download_dir[OF r v] r v show ?thesis by blast
qed

text \<open>
  C9, as the specification states it, fails: the report file is written only inside
  \<^verbatim>\<open>if orphaned_files:\<close>, so a run that finds no orphan leaves the report of an earlier
  run on disk.
\<close>

theorem no_orphans_report_not_overwritten:
  "map_option report_after (main clean_env ''/dl/'') = Some (Some [''report of an earlier run''])"
proof -
  from clean_scan obtain out where
    out: "scan_torrents clean_env ''/dl/'' = Some out" "result out = Some ([], 0)" by blast
  have c: "connected clean_env" by (simp add: clean_env_def scenario_run_env_def)
  have r: "report_file clean_env = Some [''report of an earlier run'']" by (simp add: clean_env_def)
  from main_no_orphans[OF c out] r show ?thesis by simp
qed

text \<open>
  C9, amended. When the list is not empty and the report file can be opened, every write
  succeeds and the file can be closed, the file is replaced by the six header strings and one string for each entry
  of the sorted list, in order: the size as \<open>format_bytes\<close> renders it, right-aligned in 10
  columns, then \<open> - \<close>, the path shown and a newline; and the report is announced as
  saved. For each entry whose path starts with the download directory and does not hold
  the text of the download directory again after it, the path shown is the path relative
  to the download directory.
\<close>

theorem report_file_written:
  assumes "main env dd = Some r" and "scan_result r = Some (orphaned, total_size)"
    and "orphaned \<noteq> []" and "open_report env = None"
    and "snd (write_all (report_write env) []
                (report_lines (format_bytes env) dd orphaned total_size)) = None"
    and "report_close env (report_lines (format_bytes env) dd orphaned total_size) = None"
  shows "report_after r =
           Some (report_header (format_bytes env) dd orphaned total_size
                 @ map (\<lambda>e. rjust 10 (format_bytes env (snd e)) @ '' - ''
                              @ display_path dd (fst e) @ newline)
                       orphaned) \<and>
         Report_saved \<in> set (printed r) \<and>
         list_all (\<lambda>e. prefix dd (fst e) \<and> \<not> sublist dd (drop (length dd) (fst e)) \<longrightarrow>
                         display_path dd (fst e) = drop (length dd) (fst e))
                  orphaned"
proof -
  from save_report_written[OF assms(4,5,6)] have
    s: "save_report env dd orphaned total_size =
          (Some (report_lines (format_bytes env) dd orphaned total_size), Report_saved)" .
  from main_report_after(1)[OF assms(1,2)] assms(3) s have
    "report_after r = Some (report_lines (format_bytes env) dd orphaned total_size)" by simp
  then have a: "report_after r =
           Some (report_header (format_bytes env) dd orphaned total_size
                 @ map (\<lambda>e. rjust 10 (format_bytes env (snd e)) @ '' - ''
                              @ display_path dd (fst e) @ newline)
                       orphaned)"
    by (simp add: report_lines_def report_line_def[abs_def])
  from main_report_after(2)[OF assms(1,2,3)] s have b: "Report_saved \<in> set (printed r)" by simp
  have c: "list_all (\<lambda>e. prefix dd (fst e) \<and> \<not> sublist dd (drop (length dd) (fst e)) \<longrightarrow>
                         display_path dd (fst e) = drop (length dd) (fst e))
                  orphaned"
    by (simp add: list_all_iff display_path_relative)
  from a b c show ?thesis by blast
qed

theorem report_file_written_witness:
  "open_report scenario_run_env = None \<and>
   snd (write_all (report_write scenario_run_env) []
          (report_lines (format_bytes scenario_run_env) ''/dl/''
             [(''/dl/other/c.txt'', 200), (''/dl/movie/b.nfo'', 50)] 250)) = None \<and>
   report_close scenario_run_env
     (report_lines (format_bytes scenario_run_env) ''/dl/''
        [(''/dl/other/c.txt'', 200), (''/dl/movie/b.nfo'', 50)] 250) = None \<and>
   (\<exists>r. main scenario_run_env ''/dl/'' = Some r \<and>
      scan_result r = Some ([(''/dl/other/c.txt'', 200), (''/dl/movie/b.nfo'', 50)], 250) \<and>
      Report_saved \<in> set (printed r) \<and>
      report_after r =
        Some [''Orphaned Files Report'' @ newline,
              ''Generated by: qBittorrent Orphaned Files Cleaner'' @ newline,
              ''Download Directory: /dl/'' @ newline,
              ''Total files: 2'' @ newline,
              ''Total size: 250 B'' @ newline,
              replicate 60 CHR ''='' @ newline @ newline,
              ''     200 B - other/c.txt'' @ newline,
              ''      50 B - movie/b.nfo'' @ newline])"
proof -
  let ?es = "[(''/dl/other/c.txt'', 200::nat), (''/dl/movie/b.nfo'', 50)]"
  have h3: "?es \<noteq> []" by simp
  have h4: "open_report scenario_run_env = None" by (simp add: scenario_run_env_def)
  have wr: "report_write scenario_run_env = (\<lambda>written s. None)" by (simp add: scenario_run_env_def)
  have h5: "snd (write_all (report_write scenario_run_env) []
                   (report_lines (format_bytes scenario_run_env) ''/dl/'' ?es 250)) = None"
    unfolding wr by (simp add: write_all_never_fails)
  have h6: "report_close scenario_run_env
              (report_lines (format_bytes scenario_run_env) ''/dl/'' ?es 250) = None"
    by (simp add: scenario_run_env_def)
  from scenario_run_scan obtain out where
    out: "scan_torrents scenario_run_env ''/dl/'' = Some out"
    "result out = Some ([(''/dl/movie/b.nfo'', 50), (''/dl/other/c.txt'', 200)], 250)" by blast
  have c: "connected scenario_run_env" by (simp add: scenario_run_env_def)
  from main_returns[OF c out] obtain r where
    r: "main scenario_run_env ''/dl/'' = Some r" "scan_result r = Some (?es, 250)"
    by (auto simp: scenario_sorted)
  have f: "format_bytes scenario_run_env = scenario_format" by (simp add: scenario_run_env_def)
  note rf = report_file_written[OF r h3 h4 h5 h6, unfolded f scenario_header scenario_lines]
  from rf have "Report_saved \<in> set (printed r)"
    and "report_after r =
        Some [''Orphaned Files Report'' @ newline,
              ''Generated by: qBittorrent Orphaned Files Cleaner'' @ newline,
              ''Download Directory: /dl/'' @ newline,
              ''Total files: 2'' @ newline,
              ''Total size: 250 B'' @ newline,
              replicate 60 CHR ''='' @ newline @ newline,
              ''     200 B - other/c.txt'' @ newline,
              ''      50 B - movie/b.nfo'' @ newline]"
    by simp_all
  with r h4 h5 h6 show ?thesis by blast
qed

end
